theory Spec2Isabelle
  imports Complex_Main "HOL-Library.Log_Nat"
begin

section \<open>JavaScript values used by the parser\<close>

text \<open>
  A JavaScript \<^verbatim>\<open>number\<close> is a binary64 value: NaN, an infinity, or a finite
  number, which is carried here as the rational it denotes. Every operation that
  produces a number rounds its exact result to binary64 (\<open>round64\<close> below), so the
  finite values that occur are exactly the binary64 ones. \<^verbatim>\<open>-0\<close> and \<^verbatim>\<open>+0\<close>
  coincide, as they do under \<^verbatim>\<open><\<close>, \<^verbatim>\<open>>=\<close> and \<^verbatim>\<open>===\<close>.
\<close>

datatype jsnum = NaN | Finite rat | PosInf | NegInf

fun js_isNaN :: "jsnum \<Rightarrow> bool" where
  "js_isNaN NaN = True"
| "js_isNaN _ = False"

text \<open>\<^verbatim>\<open>a < b\<close>: false as soon as one operand is NaN.\<close>

fun js_lt :: "jsnum \<Rightarrow> jsnum \<Rightarrow> bool" where
  "js_lt NaN _ = False"
| "js_lt _ NaN = False"
| "js_lt (Finite a) (Finite b) = (a < b)"
| "js_lt (Finite a) PosInf = True"
| "js_lt (Finite a) NegInf = False"
| "js_lt PosInf _ = False"
| "js_lt NegInf NegInf = False"
| "js_lt NegInf _ = True"

text \<open>\<^verbatim>\<open>a >= b\<close>: false as soon as one operand is NaN, otherwise the negation of \<^verbatim>\<open>a < b\<close>.\<close>

definition js_ge :: "jsnum \<Rightarrow> jsnum \<Rightarrow> bool" where
  "js_ge a b = (\<not> js_isNaN a \<and> \<not> js_isNaN b \<and> \<not> js_lt a b)"

text \<open>\<^verbatim>\<open>a === b\<close> on numbers: NaN is equal to nothing.\<close>

definition js_strict_eq :: "jsnum \<Rightarrow> jsnum \<Rightarrow> bool" where
  "js_strict_eq a b = (\<not> js_isNaN a \<and> \<not> js_isNaN b \<and> a = b)"

fun js_neg :: "jsnum \<Rightarrow> jsnum" where
  "js_neg NaN = NaN"
| "js_neg (Finite a) = Finite (- a)"
| "js_neg PosInf = NegInf"
| "js_neg NegInf = PosInf"

text \<open>
  Rounding to binary64, to nearest with ties to even. For \<open>a > 0\<close>, \<open>floorLog2 a\<close>
  is the exponent \<open>e\<close> with \<open>2\<^sup>e \<le> a < 2\<^sup>e\<^sup>+\<^sup>1\<close>, found from the bit lengths of
  numerator and denominator.
\<close>

definition floorLog2 :: "rat \<Rightarrow> int" where
  "floorLog2 a =
     (case quotient_of a of
        (p, q) \<Rightarrow>
          (let e0 = bitlen p - bitlen q in if 2 powi e0 \<le> a then e0 else e0 - 1))"

definition roundHalfEven :: "rat \<Rightarrow> int" where
  "roundHalfEven y =
     (let f = \<lfloor>y\<rfloor>; d = y - of_int f in
      if d < 1 / 2 then f else if 1 / 2 < d then f + 1 else if even f then f else f + 1)"

text \<open>
  The magnitude is cut to 53 significant bits at exponent \<open>e\<close> (the quantum is
  \<open>2\<^sup>e\<^sup>-\<^sup>5\<^sup>2\<close>); below the smallest normal exponent \<open>-1022\<close> the quantum stays
  \<open>2\<^sup>-\<^sup>1\<^sup>0\<^sup>7\<^sup>4\<close> (subnormal numbers, underflow to zero), and a rounded magnitude
  of \<open>2\<^sup>1\<^sup>0\<^sup>2\<^sup>4\<close> or more is an infinity. The bound is given to evaluation as a
  numeral.
\<close>

definition overflowBound :: rat where
  "overflowBound = 2 ^ 1024"

lemma overflowBound_code [code]:
  "overflowBound = 179769313486231590772930519078902473361797697894230657273430081157732675805500963132708477322407536021120113879871393357658789768814416622492847430639474124377767893424865485276302219601246094119453082952085005768838150682342462881473913110540827237163350510684586298239947245938479716304835356329624224137216"
  by (simp add: overflowBound_def)

definition round64 :: "rat \<Rightarrow> jsnum" where
  "round64 x =
     (if x = 0 then Finite 0
      else
        (let a = \<bar>x\<bar>;
             e = max (floorLog2 a) (- 1022);
             q = 2 powi (e - 52);
             r = of_int (roundHalfEven (a / q)) * q in
         if overflowBound \<le> r then (if 0 < x then PosInf else NegInf)
         else Finite (if 0 < x then r else - r)))"

text \<open>An infinity times a number: the sign rule, with \<^verbatim>\<open>Infinity * 0 = NaN\<close>.\<close>

definition inf_times :: "bool \<Rightarrow> rat \<Rightarrow> jsnum" where
  "inf_times positive b =
     (if b = 0 then NaN else if (0 < b) = positive then PosInf else NegInf)"

text \<open>\<^verbatim>\<open>a * b\<close> and \<^verbatim>\<open>a + b\<close>: the exact result of two finite operands is rounded.\<close>

fun js_mul :: "jsnum \<Rightarrow> jsnum \<Rightarrow> jsnum" where
  "js_mul NaN _ = NaN"
| "js_mul _ NaN = NaN"
| "js_mul (Finite a) (Finite b) = round64 (a * b)"
| "js_mul PosInf (Finite b) = inf_times True b"
| "js_mul NegInf (Finite b) = inf_times False b"
| "js_mul (Finite a) PosInf = inf_times True a"
| "js_mul (Finite a) NegInf = inf_times False a"
| "js_mul PosInf PosInf = PosInf"
| "js_mul NegInf NegInf = PosInf"
| "js_mul PosInf NegInf = NegInf"
| "js_mul NegInf PosInf = NegInf"

fun js_add :: "jsnum \<Rightarrow> jsnum \<Rightarrow> jsnum" where
  "js_add NaN _ = NaN"
| "js_add _ NaN = NaN"
| "js_add (Finite a) (Finite b) = round64 (a + b)"
| "js_add PosInf NegInf = NaN"
| "js_add NegInf PosInf = NaN"
| "js_add PosInf _ = PosInf"
| "js_add NegInf _ = NegInf"
| "js_add (Finite a) PosInf = PosInf"
| "js_add (Finite a) NegInf = NegInf"

section \<open>String primitives\<close>

text \<open>
  Strings are lists of 8-bit characters, so the model covers URIs whose code units lie in
  the Latin-1 range. The white space of \<^verbatim>\<open>String.prototype.trim\<close> and of
  \<^verbatim>\<open>parseFloat\<close> in that range is TAB, LF, VT, FF, CR, SP and NBSP.
\<close>

definition isWhiteSpace :: "char \<Rightarrow> bool" where
  "isWhiteSpace c = ((of_char c :: nat) \<in> {9, 10, 11, 12, 13, 32, 160})"

definition trim :: "string \<Rightarrow> string" where
  "trim s = rev (dropWhile isWhiteSpace (rev (dropWhile isWhiteSpace s)))"

text \<open>The class \<^verbatim>\<open>\d\<close> of a regular expression without the unicode flag: ASCII digits.\<close>

definition isDigit :: "char \<Rightarrow> bool" where
  "isDigit c = (48 \<le> (of_char c :: nat) \<and> (of_char c :: nat) \<le> 57)"

definition digitVal :: "char \<Rightarrow> nat" where
  "digitVal c = of_char c - 48"

definition digitsVal :: "string \<Rightarrow> nat" where
  "digitsVal ds = foldl (\<lambda>a c. 10 * a + digitVal c) 0 ds"

definition startsWith :: "string \<Rightarrow> string \<Rightarrow> bool" where
  "startsWith s p = (take (length p) s = p)"

text \<open>\<^verbatim>\<open>s.indexOf(c)\<close>: the first index of \<open>c\<close>, or \<open>-1\<close>.\<close>

fun indexOf :: "string \<Rightarrow> char \<Rightarrow> int" where
  "indexOf [] c = - 1"
| "indexOf (x # xs) c =
     (if x = c then 0 else (let i = indexOf xs c in if i = - 1 then - 1 else i + 1))"

text \<open>
  \<^verbatim>\<open>s.split(c)\<close> with a one-character separator: the empty string gives one empty
  part, and \<open>n\<close> separators give \<open>n + 1\<close> parts.
\<close>

fun js_split :: "char \<Rightarrow> string \<Rightarrow> string list" where
  "js_split c [] = [[]]"
| "js_split c (x # xs) =
     (if x = c then [] # js_split c xs
      else (case js_split c xs of [] \<Rightarrow> [[x]] | p # ps \<Rightarrow> (x # p) # ps))"

section \<open>The built-in parseFloat\<close>

text \<open>
  \<^verbatim>\<open>parseFloat\<close> (ECMAScript 19.2.4) skips leading white space and reads the longest
  prefix that is a \<^verbatim>\<open>StrDecimalLiteral\<close>: an optional sign, then \<^verbatim>\<open>Infinity\<close>, or
  digits with an optional fraction and an optional exponent. Whatever follows the prefix
  is ignored; without such a prefix the result is NaN. The result is the binary64
  number nearest to the mathematical value of the prefix.
\<close>

definition scale10 :: "rat \<Rightarrow> int \<Rightarrow> rat" where
  "scale10 x e = (if 0 \<le> e then x * 10 ^ nat e else x / 10 ^ nat (- e))"

definition decimalValue :: "string \<Rightarrow> string \<Rightarrow> int \<Rightarrow> rat" where
  "decimalValue ip fp e =
     scale10 (of_nat (digitsVal ip) + of_nat (digitsVal fp) / 10 ^ length fp) e"

text \<open>
  The value of an \<^verbatim>\<open>ExponentPart\<close> at the head of the string. Without one (no
  \<^verbatim>\<open>e\<close>, or no digit after it) the value is \<open>0\<close>, which scales by one.
\<close>

definition exponentPart :: "string \<Rightarrow> int" where
  "exponentPart s =
     (case s of
        [] \<Rightarrow> 0
      | c # r \<Rightarrow>
          if c = CHR ''e'' \<or> c = CHR ''E'' then
            (case r of
               [] \<Rightarrow> 0
             | d # r' \<Rightarrow>
                 if d = CHR ''-'' then - int (digitsVal (takeWhile isDigit r'))
                 else if d = CHR ''+'' then int (digitsVal (takeWhile isDigit r'))
                 else int (digitsVal (takeWhile isDigit r)))
          else 0)"

definition strUnsignedDecimalLiteral :: "string \<Rightarrow> jsnum" where
  "strUnsignedDecimalLiteral s =
     (if startsWith s ''Infinity'' then PosInf
      else
        (let ip = takeWhile isDigit s; r1 = dropWhile isDigit s in
         case r1 of
           [] \<Rightarrow> if ip = [] then NaN else round64 (decimalValue ip [] 0)
         | c # r2 \<Rightarrow>
             if c = CHR ''.'' then
               (let fp = takeWhile isDigit r2; r3 = dropWhile isDigit r2 in
                if ip = [] \<and> fp = [] then NaN
                else round64 (decimalValue ip fp (exponentPart r3)))
             else if ip = [] then NaN
             else round64 (decimalValue ip [] (exponentPart r1))))"

definition parseFloat :: "string \<Rightarrow> jsnum" where
  "parseFloat s =
     (case dropWhile isWhiteSpace s of
        [] \<Rightarrow> NaN
      | c # r \<Rightarrow>
          if c = CHR ''-'' then js_neg (strUnsignedDecimalLiteral r)
          else if c = CHR ''+'' then strUnsignedDecimalLiteral r
          else strUnsignedDecimalLiteral (c # r))"

section \<open>The time-value parser\<close>

text \<open>The test \<^verbatim>\<open>/^\d+(\.\d+)?$/\<close>: digits, then nothing or a dot and digits.\<close>

definition isNptSec :: "string \<Rightarrow> bool" where
  "isNptSec s =
     (takeWhile isDigit s \<noteq> [] \<and>
      (case dropWhile isDigit s of
         [] \<Rightarrow> True
       | c # fs \<Rightarrow> c = CHR ''.'' \<and> fs \<noteq> [] \<and> list_all isDigit fs))"

text \<open>
  \<^verbatim>\<open>parseNptTime\<close>; \<open>None\<close> is \<^verbatim>\<open>undefined\<close>. The indices \<open>parts ! i\<close> are read
  under the length tests of the source, so they are in range.
\<close>

definition parseNptTime :: "string \<Rightarrow> jsnum option" where
  "parseNptTime timeStr0 =
     (let timeStr = trim timeStr0 in
      if timeStr = [] then None
      else if isNptSec timeStr then Some (parseFloat timeStr)
      else
        (let parts = js_split CHR '':'' timeStr in
         if length parts = 2 then
           (let minutes = parseFloat (parts ! 0);
                seconds = parseFloat (parts ! 1) in
            if js_isNaN minutes \<or> js_isNaN seconds \<or>
               js_lt minutes (Finite 0) \<or> js_ge minutes (Finite 60) \<or>
               js_lt seconds (Finite 0) \<or> js_ge seconds (Finite 60)
            then None
            else Some (js_add (js_mul minutes (Finite 60)) seconds))
         else if length parts = 3 then
           (let hours = parseFloat (parts ! 0);
                minutes = parseFloat (parts ! 1);
                seconds = parseFloat (parts ! 2) in
            if js_isNaN hours \<or> js_isNaN minutes \<or> js_isNaN seconds \<or>
               js_lt hours (Finite 0) \<or> js_lt minutes (Finite 0) \<or>
               js_lt seconds (Finite 0) \<or> js_ge minutes (Finite 60) \<or>
               js_ge seconds (Finite 60)
            then None
            else Some (js_add (js_add (js_mul hours (Finite 3600))
                                      (js_mul minutes (Finite 60))) seconds))
         else None))"

section \<open>Selecting the temporal parameter\<close>

text \<open>
  The global regular expression \<^verbatim>\<open>/(?:^|&)t=([^&]*)/g\<close> keeps its position in
  \<^verbatim>\<open>lastIndex\<close>. The model carries the unread suffix of the fragment (the fragment
  from \<^verbatim>\<open>lastIndex\<close> on) and a flag telling whether that position is the start of the
  input, where \<^verbatim>\<open>^\<close> holds.

  \<open>matchHere\<close> tries the expression at the current position and returns the capture
  group and the input left after the match.
\<close>

definition notAmp :: "char \<Rightarrow> bool" where
  "notAmp c = (c \<noteq> CHR ''&'')"

definition matchHere :: "bool \<Rightarrow> string \<Rightarrow> (string \<times> string) option" where
  "matchHere atStart s =
     (if atStart \<and> startsWith s ''t='' then
        Some (takeWhile notAmp (drop 2 s), dropWhile notAmp (drop 2 s))
      else if startsWith s ''&t='' then
        Some (takeWhile notAmp (drop 3 s), dropWhile notAmp (drop 3 s))
      else None)"

text \<open>
  \<^verbatim>\<open>regex.exec(fragment)\<close>: the first position from \<^verbatim>\<open>lastIndex\<close> on where the
  expression matches; \<open>None\<close> is \<^verbatim>\<open>null\<close>.
\<close>

fun regexExec :: "bool \<Rightarrow> string \<Rightarrow> (string \<times> string) option" where
  "regexExec atStart [] = matchHere atStart []"
| "regexExec atStart (c # s) =
     (case matchHere atStart (c # s) of
        Some m \<Rightarrow> Some m
      | None \<Rightarrow> regexExec False s)"

lemma matchHere_shorter: "matchHere atStart s = Some (cap, rest) \<Longrightarrow> length rest < length s"
proof -
  have d: "length (dropWhile notAmp (drop n s)) \<le> length s - n" for n
    using length_dropWhile_le [of notAmp "drop n s"] by simp
  assume "matchHere atStart s = Some (cap, rest)"
  then consider "startsWith s ''t=''" "rest = dropWhile notAmp (drop 2 s)"
    | "startsWith s ''&t=''" "rest = dropWhile notAmp (drop 3 s)"
    by (auto simp: matchHere_def split: if_splits)
  then show ?thesis
  proof cases
    case 1
    then have "2 \<le> length s" by (cases s rule: list.exhaust; cases "tl s") (auto simp: startsWith_def)
    with 1 d [of 2] show ?thesis by simp
  next
    case 2
    then have "3 \<le> length s" unfolding startsWith_def
      by (metis length_take min.cobounded1 length_Cons list.size(3) numeral_3_eq_3)
    with 2 d [of 3] show ?thesis by simp
  qed
qed

lemma regexExec_shorter:
  "regexExec atStart s = Some (cap, rest) \<Longrightarrow> length rest < length s"
proof (induction s arbitrary: atStart)
  case Nil
  then show ?case by (simp add: matchHere_def startsWith_def)
next
  case (Cons c s)
  show ?case
  proof (cases "matchHere atStart (c # s)")
    case None
    with Cons.prems have "regexExec False s = Some (cap, rest)" by simp
    from Cons.IH [OF this] show ?thesis by simp
  next
    case (Some m)
    with Cons.prems have "matchHere atStart (c # s) = Some (cap, rest)" by simp
    then show ?thesis by (rule matchHere_shorter)
  qed
qed

text \<open>
  The loop \<^verbatim>\<open>while ((match = regex.exec(fragment)) !== null) temporalMatch = match[1]\<close>.
  Every match consumes at least \<^verbatim>\<open>t=\<close>, so the unread suffix shrinks and the loop ends.
\<close>

function execLoop :: "bool \<Rightarrow> string \<Rightarrow> string option \<Rightarrow> string option" where
  "execLoop atStart s temporalMatch =
     (case regexExec atStart s of
        None \<Rightarrow> temporalMatch
      | Some (cap, rest) \<Rightarrow> execLoop False rest (Some cap))"
  by pat_completeness auto
termination
  by (relation "measure (\<lambda>(atStart, s, temporalMatch). length s)")
     (auto dest: regexExec_shorter)

declare execLoop.simps [simp del]

section \<open>The fragment parser\<close>

text \<open>
  The two interfaces of the source. An optional field is an \<open>option\<close>; the field
  \<^verbatim>\<open>end\<close> is written \<open>end'\<close>.
\<close>

record TemporalFragment =
  start :: "jsnum option"
  end' :: "jsnum option"

record MediaFragmentParseResult =
  temporalFragment :: "TemporalFragment option"

text \<open>The only exception the function body could raise: a method call on \<^verbatim>\<open>undefined\<close>.\<close>

datatype js_error = TypeError

text \<open>\<^verbatim>\<open>parts[i].trim()\<close>: \<^verbatim>\<open>parts[i]\<close> is \<^verbatim>\<open>undefined\<close> out of range, and the call raises.\<close>

definition trimAt :: "string list \<Rightarrow> nat \<Rightarrow> js_error + string" where
  "trimAt parts i = (if i < length parts then Inr (trim (parts ! i)) else Inl TypeError)"

text \<open>The value \<^verbatim>\<open>{ temporalFragment: undefined }\<close> of every early return.\<close>

definition absent :: MediaFragmentParseResult where
  "absent = \<lparr>temporalFragment = None\<rparr>"

text \<open>
  The block the source repeats for each bound (lines 49-57, 63-71 and 72-80): an empty
  string leaves the field unset, a failed time value returns from the whole function
  (\<open>None\<close> here), and a parsed value is stored when it is \<^verbatim>\<open>>= 0\<close>.
\<close>

definition parseBound :: "string \<Rightarrow> jsnum option option" where
  "parseBound t =
     (if t = [] then Some None
      else
        (case parseNptTime t of
           None \<Rightarrow> None
         | Some v \<Rightarrow> Some (if js_ge v (Finite 0) then Some v else None)))"

text \<open>The three final tests (lines 84-100) on the fields set so far.\<close>

definition checkWindow :: "jsnum option \<Rightarrow> jsnum option \<Rightarrow> MediaFragmentParseResult" where
  "checkWindow s e =
     (if (case (s, e) of (Some a, Some b) \<Rightarrow> js_ge a b | _ \<Rightarrow> False) then absent
      else if s = None \<and> (case e of Some b \<Rightarrow> js_strict_eq b (Finite 0) | None \<Rightarrow> False)
      then absent
      else if s = None \<and> e = None then absent
      else \<lparr>temporalFragment = Some \<lparr>start = s, end' = e\<rparr>\<rparr>)"

text \<open>The constant \<^verbatim>\<open>cleanValue\<close> (lines 40-42): the match without an \<^verbatim>\<open>npt:\<close> prefix.\<close>

definition cleanValue :: "string \<Rightarrow> string" where
  "cleanValue temporalMatch =
     (if startsWith temporalMatch ''npt:'' then drop 4 temporalMatch else temporalMatch)"

text \<open>
  The function body from the test of \<^verbatim>\<open>temporalMatch\<close> on (lines 35-100);
  \<open>None\<close> is \<^verbatim>\<open>null\<close>, and the empty string is falsy too.
\<close>

definition parseTemporalValue :: "string option \<Rightarrow> js_error + MediaFragmentParseResult" where
  "parseTemporalValue temporalMatch =
     (case temporalMatch of
        None \<Rightarrow> Inr absent
      | Some tm \<Rightarrow>
          if tm = [] then Inr absent
          else
            (let parts = js_split CHR '','' (cleanValue tm) in
             if length parts = 1 then
               (case trimAt parts 0 of
                  Inl err \<Rightarrow> Inl err
                | Inr startTime \<Rightarrow>
                    (case parseBound startTime of
                       None \<Rightarrow> Inr absent
                     | Some s \<Rightarrow> Inr (checkWindow s None)))
             else if length parts = 2 then
               (case trimAt parts 0 of
                  Inl err \<Rightarrow> Inl err
                | Inr startTime \<Rightarrow>
                    (case trimAt parts 1 of
                       Inl err \<Rightarrow> Inl err
                     | Inr endTime \<Rightarrow>
                         (case parseBound startTime of
                            None \<Rightarrow> Inr absent
                          | Some s \<Rightarrow>
                              (case parseBound endTime of
                                 None \<Rightarrow> Inr absent
                               | Some e \<Rightarrow> Inr (checkWindow s e)))))
             else Inr absent))"

text \<open>
  \<^verbatim>\<open>parseMediaFragment\<close> (lines 21-34, then the rest of the body): \<open>Inl\<close> would be
  a raised exception, \<open>Inr\<close> is the returned object.
\<close>

definition parseMediaFragment :: "string \<Rightarrow> js_error + MediaFragmentParseResult" where
  "parseMediaFragment sourceUrl =
     (let hashIndex = indexOf sourceUrl CHR ''#'' in
      if hashIndex = - 1 then Inr absent
      else
        (let fragment = drop (nat (hashIndex + 1)) sourceUrl in
         parseTemporalValue (execLoop True fragment None)))"

section \<open>The boundary enforcer\<close>









section \<open>Notions used in the statements\<close>

text \<open>
  What the loop computes, stated on the parameters of the fragment: the body is cut at
  each \<^verbatim>\<open>&\<close>, and the value of the last parameter that begins with \<^verbatim>\<open>t=\<close> is
  kept. \<open>ampJoin\<close> writes parameters back with a leading \<^verbatim>\<open>&\<close> each.
\<close>

definition lastTemporal :: "string list \<Rightarrow> string option \<Rightarrow> string option" where
  "lastTemporal segs tm =
     foldl (\<lambda>acc seg. if startsWith seg ''t='' then Some (drop 2 seg) else acc) tm segs"

definition ampJoin :: "string list \<Rightarrow> string" where
  "ampJoin segs = concat (map ((#) CHR ''&'') segs)"

text \<open>
  Where a parameter may begin, and what may follow the last temporal parameter:
  \<open>paramStart pre\<close> says that the text \<open>pre\<close> before a parameter is empty or ends
  with \<^verbatim>\<open>&\<close>; \<open>otherParams ps\<close> says that no parameter of \<open>ps\<close> begins with
  \<^verbatim>\<open>t=\<close> (or holds an \<^verbatim>\<open>&\<close>).
\<close>

definition otherParams :: "string list \<Rightarrow> bool" where
  "otherParams ps = list_all (\<lambda>p. CHR ''&'' \<notin> set p \<and> \<not> startsWith p ''t='') ps"

definition paramStart :: "string \<Rightarrow> bool" where
  "paramStart pre = (pre = [] \<or> last pre = CHR ''&'')"

text \<open>A field that is unset or holds a number other than NaN.\<close>

definition numberOrUnset :: "jsnum option \<Rightarrow> bool" where
  "numberOrUnset x = (case x of None \<Rightarrow> True | Some v \<Rightarrow> \<not> js_isNaN v)"

text \<open>
  The window as a function of the trimmed parts of the value, used to compare two values
  that differ in white space only.
\<close>

definition windowOfParts :: "string list \<Rightarrow> js_error + MediaFragmentParseResult" where
  "windowOfParts ps =
     (case ps of
        [startTime] \<Rightarrow>
          (case parseBound startTime of
             None \<Rightarrow> Inr absent
           | Some s \<Rightarrow> Inr (checkWindow s None))
      | [startTime, endTime] \<Rightarrow>
          (case parseBound startTime of
             None \<Rightarrow> Inr absent
           | Some s \<Rightarrow>
               (case parseBound endTime of
                  None \<Rightarrow> Inr absent
                | Some e \<Rightarrow> Inr (checkWindow s e)))
      | _ \<Rightarrow> Inr absent)"

text \<open>
  The strings of the time grammar: a group of decimal digits, and a seconds group, which
  is digits with an optional fraction (\<open>fs\<close> empty: no fraction), with the number
  it spells.
\<close>

definition isDigits :: "string \<Rightarrow> bool" where
  "isDigits ds = (ds \<noteq> [] \<and> list_all isDigit ds)"

definition nptSeconds :: "string \<Rightarrow> string \<Rightarrow> string" where
  "nptSeconds ds fs = (if fs = [] then ds else ds @ ''.'' @ fs)"

definition secondsValue :: "string \<Rightarrow> string \<Rightarrow> rat" where
  "secondsValue ds fs = of_nat (digitsVal ds) + of_nat (digitsVal fs) / 10 ^ length fs"

text \<open>
  The number a seconds group denotes once parsed: the binary64 number nearest to the
  value it spells.
\<close>

definition secondsNumber :: "string \<Rightarrow> string \<Rightarrow> jsnum" where
  "secondsNumber ds fs = round64 (secondsValue ds fs)"

text \<open>
  The range tests and the result of the two-group and three-group branches, as functions
  of the numbers \<^verbatim>\<open>parseFloat\<close> returned for the groups.
\<close>

definition minutesSeconds :: "jsnum \<Rightarrow> jsnum \<Rightarrow> jsnum option" where
  "minutesSeconds minutes seconds =
     (if js_isNaN minutes \<or> js_isNaN seconds \<or>
         js_lt minutes (Finite 0) \<or> js_ge minutes (Finite 60) \<or>
         js_lt seconds (Finite 0) \<or> js_ge seconds (Finite 60)
      then None
      else Some (js_add (js_mul minutes (Finite 60)) seconds))"

definition hoursMinutesSeconds :: "jsnum \<Rightarrow> jsnum \<Rightarrow> jsnum \<Rightarrow> jsnum option" where
  "hoursMinutesSeconds hours minutes seconds =
     (if js_isNaN hours \<or> js_isNaN minutes \<or> js_isNaN seconds \<or>
         js_lt hours (Finite 0) \<or> js_lt minutes (Finite 0) \<or>
         js_lt seconds (Finite 0) \<or> js_ge minutes (Finite 60) \<or>
         js_ge seconds (Finite 60)
      then None
      else Some (js_add (js_add (js_mul hours (Finite 3600))
                                (js_mul minutes (Finite 60))) seconds))"


section \<open>Facts about the string primitives\<close>

lemma js_split_not_Nil: "js_split c s \<noteq> []"
  by (induction s) (auto split: list.splits)

lemma js_split_no_sep: "c \<notin> set s \<Longrightarrow> js_split c s = [s]"
  by (induction s) auto

lemma js_split_prepend: "c \<notin> set a \<Longrightarrow> js_split c (a @ c # b) = a # js_split c b"
  by (induction a) auto

lemma js_split_append: "js_split c (x @ c # y) = js_split c x @ js_split c y"
proof (induction x)
  case Nil
  show ?case by simp
next
  case (Cons h t)
  then show ?case
    using js_split_not_Nil [of c t] by (cases "js_split c t") auto
qed

lemma length_js_split: "length (js_split c s) = Suc (count_list s c)"
  by (induction s) (auto split: list.splits simp: js_split_not_Nil)

lemma js_split_parts: "p \<in> set (js_split c s) \<Longrightarrow> c \<notin> set p"
  by (induction s arbitrary: p) (auto split: list.splits if_splits)

lemma js_split_join:
  "hd (js_split c s) @ concat (map ((#) c) (tl (js_split c s))) = s"
  by (induction s) (auto split: list.splits simp: js_split_not_Nil)

lemma indexOf_absent: "c \<notin> set s \<Longrightarrow> indexOf s c = - 1"
  by (induction s) auto

lemma indexOf_first: "c \<notin> set u \<Longrightarrow> indexOf (u @ c # r) c = int (length u)"
  by (induction u) (auto simp: Let_def)

lemma trim_id:
  assumes "s \<noteq> []" "\<not> isWhiteSpace (hd s)" "\<not> isWhiteSpace (last s)"
  shows "trim s = s"
proof -
  have a: "dropWhile isWhiteSpace s = s" using assms(1,2) by (cases s) auto
  have "rev s \<noteq> []" "\<not> isWhiteSpace (hd (rev s))"
    using assms(1,3) by (simp_all add: hd_rev)
  then have "dropWhile isWhiteSpace (rev s) = rev s" by (cases "rev s") auto
  then show ?thesis using a by (simp add: trim_def)
qed

section \<open>Facts about rounding\<close>

lemma two_powi_pos: "0 < (2::rat) powi k"
  by (simp add: power_int_def)

lemma two_powi_nat: "0 \<le> k \<Longrightarrow> (2::rat) powi k = 2 ^ nat k"
  by (simp add: power_int_def)

lemma two_powi_add: "(2::rat) powi (m + n) = 2 powi m * 2 powi n"
  by (simp add: power_int_add)

lemma two_powi_diff: "(2::rat) powi (m - n) = 2 powi m / 2 powi n"
  by (simp add: power_int_diff)

lemma two_powi_mono: "m \<le> n \<Longrightarrow> (2::rat) powi m \<le> 2 powi n"
  by (simp add: power_int_increasing)

lemma two_powi_less_exp: "(2::rat) powi m < 2 powi n \<Longrightarrow> m < n"
  using two_powi_mono [of n m] by (cases "m < n") auto

lemma floorLog2_bounds:
  assumes "0 < a"
  shows "2 powi (floorLog2 a) \<le> a \<and> a < 2 powi (floorLog2 a + 1)"
proof -
  obtain p q where pq: "quotient_of a = (p, q)" by (cases "quotient_of a")
  have q: "0 < q" using pq by (rule quotient_of_denom_pos)
  have a: "a = of_int p / of_int q" using pq by (rule quotient_of_div)
  have p: "0 < p" using assms q a by (simp add: zero_less_divide_iff)
  define lp lq where "lp = bitlen p" and "lq = bitlen q"
  have lp: "1 \<le> lp" and lq: "1 \<le> lq"
    using p q bitlen_eq_zero_iff [of p] bitlen_eq_zero_iff [of q] bitlen_nonneg [of p]
      bitlen_nonneg [of q]
    by (auto simp: lp_def lq_def)
  have bp: "2 ^ nat (lp - 1) \<le> p" "p < 2 ^ nat lp"
    using bitlen_bounds [OF p] by (simp_all add: lp_def)
  have bq: "2 ^ nat (lq - 1) \<le> q" "q < 2 ^ nat lq"
    using bitlen_bounds [OF q] by (simp_all add: lq_def)
  have rp: "(2::rat) powi (lp - 1) \<le> of_int p" "of_int p < (2::rat) powi lp"
  proof -
    have "(of_int (2 ^ nat (lp - 1)) :: rat) \<le> of_int p" using bp(1) by (simp only: of_int_le_iff)
    then show "(2::rat) powi (lp - 1) \<le> of_int p" using lp by (simp add: two_powi_nat)
    have "(of_int p :: rat) < of_int (2 ^ nat lp)" using bp(2) by (simp only: of_int_less_iff)
    then show "of_int p < (2::rat) powi lp" using lp by (simp add: two_powi_nat)
  qed
  have rq: "(2::rat) powi (lq - 1) \<le> of_int q" "of_int q < (2::rat) powi lq"
  proof -
    have "(of_int (2 ^ nat (lq - 1)) :: rat) \<le> of_int q" using bq(1) by (simp only: of_int_le_iff)
    then show "(2::rat) powi (lq - 1) \<le> of_int q" using lq by (simp add: two_powi_nat)
    have "(of_int q :: rat) < of_int (2 ^ nat lq)" using bq(2) by (simp only: of_int_less_iff)
    then show "of_int q < (2::rat) powi lq" using lq by (simp add: two_powi_nat)
  qed
  have qpos: "(0::rat) < of_int q" using q by simp
  have upper: "a < 2 powi (lp - lq + 1)"
  proof -
    have "a < 2 powi lp / of_int q" unfolding a using rp(2) qpos by (simp add: divide_strict_right_mono)
    also have "\<dots> \<le> 2 powi lp / 2 powi (lq - 1)"
      using rq(1) two_powi_pos [of "lq - 1"] two_powi_pos [of lp]
      by (simp add: frac_le)
    also have "\<dots> = 2 powi (lp - lq + 1)"
      using two_powi_diff [of lp "lq - 1"] by (simp add: algebra_simps)
    finally show ?thesis .
  qed
  have lower: "2 powi (lp - lq - 1) < a"
  proof -
    have "(2::rat) powi (lp - lq - 1) = 2 powi (lp - 1) / 2 powi lq"
      using two_powi_diff [of "lp - 1" lq] by (simp add: algebra_simps)
    also have "\<dots> < 2 powi (lp - 1) / of_int q"
      using rq(2) qpos two_powi_pos [of "lp - 1"] by (simp add: frac_less2)
    also have "\<dots> \<le> a" unfolding a using rp(1) qpos by (simp add: divide_right_mono)
    finally show ?thesis .
  qed
  have fl: "floorLog2 a = (if 2 powi (lp - lq) \<le> a then lp - lq else lp - lq - 1)"
    by (simp add: floorLog2_def pq lp_def lq_def Let_def)
  show ?thesis
  proof (cases "2 powi (lp - lq) \<le> a")
    case True
    then show ?thesis using fl upper by simp
  next
    case False
    then have e: "floorLog2 a = lp - lq - 1" using fl by simp
    have "a < 2 powi (lp - lq)" using False by simp
    then show ?thesis unfolding e using lower by simp
  qed
qed

lemma roundHalfEven_int: "roundHalfEven (of_int k) = k"
  by (simp add: roundHalfEven_def)

lemma roundHalfEven_ge: "of_int k \<le> y \<Longrightarrow> k \<le> roundHalfEven y"
proof -
  assume "of_int k \<le> y"
  then have "k \<le> \<lfloor>y\<rfloor>" by (simp add: le_floor_iff)
  then show ?thesis by (simp add: roundHalfEven_def Let_def)
qed

lemma roundHalfEven_le: "y \<le> of_int k \<Longrightarrow> roundHalfEven y \<le> k"
proof -
  assume y: "y \<le> of_int k"
  have f: "\<lfloor>y\<rfloor> \<le> k" using y by (simp add: floor_le_iff)
  show ?thesis
  proof (cases "y = of_int \<lfloor>y\<rfloor>")
    case True
    then show ?thesis using f by (simp add: roundHalfEven_def Let_def)
  next
    case False
    then have "of_int \<lfloor>y\<rfloor> < y" using of_int_floor_le [of y] by linarith
    then have "\<lfloor>y\<rfloor> < k" using y by (meson less_le_trans of_int_less_iff)
    then show ?thesis by (simp add: roundHalfEven_def Let_def)
  qed
qed

lemma round64_not_NaN: "\<not> js_isNaN (round64 x)"
  by (simp add: round64_def Let_def)

text \<open>The shape of a rounded positive number.\<close>

lemma round64_pos:
  assumes "0 < x" "e = max (floorLog2 x) (- 1022)" "n = roundHalfEven (x / 2 powi (e - 52))"
  shows "round64 x = PosInf \<or> round64 x = Finite (of_int n * 2 powi (e - 52))"
  using assms by (simp add: round64_def Let_def)

lemma round64_nonneg:
  assumes "0 \<le> x"
  shows "round64 x = PosInf \<or> (\<exists>r. round64 x = Finite r \<and> 0 \<le> r)"
proof (cases "x = 0")
  case True
  then show ?thesis by (simp add: round64_def)
next
  case False
  then have x: "0 < x" using assms by simp
  define e where "e = max (floorLog2 x) (- 1022)"
  define n where "n = roundHalfEven (x / 2 powi (e - 52))"
  have "(of_int 0 :: rat) \<le> x / 2 powi (e - 52)"
    using x two_powi_pos [of "e - 52"] by simp
  then have "0 \<le> n" unfolding n_def by (rule roundHalfEven_ge)
  then have "(0::rat) \<le> of_int n * 2 powi (e - 52)"
    using two_powi_pos [of "e - 52"] by simp
  then show ?thesis using round64_pos [OF x e_def n_def] by auto
qed

lemma round64_lower:
  assumes "2 ^ k \<le> x"
  shows "round64 x = PosInf \<or> (\<exists>r. round64 x = Finite r \<and> 2 ^ k \<le> r)"
proof -
  have x: "0 < x" using assms by (meson less_le_trans zero_less_numeral zero_less_power)
  define e where "e = max (floorLog2 x) (- 1022)"
  define n where "n = roundHalfEven (x / 2 powi (e - 52))"
  note b = floorLog2_bounds [OF x]
  have "(2::rat) powi (int k) < 2 powi (floorLog2 x + 1)"
    using assms b by (simp add: two_powi_nat)
  then have k: "int k \<le> floorLog2 x" using two_powi_less_exp by fastforce
  then have e': "e = floorLog2 x" using e_def by simp
  have q: "(2::rat) powi e = 2 powi 52 * 2 powi (e - 52)"
    using two_powi_add [of 52 "e - 52"] by simp
  have "(of_int (2 ^ 52) :: rat) \<le> x / 2 powi (e - 52)"
    using b e' q two_powi_pos [of "e - 52"] by (simp add: pos_le_divide_eq two_powi_nat)
  then have "2 ^ 52 \<le> n" unfolding n_def by (rule roundHalfEven_ge)
  then have "(of_int (2 ^ 52) :: rat) \<le> of_int n" by (simp only: of_int_le_iff)
  then have "(2::rat) powi 52 * 2 powi (e - 52) \<le> of_int n * 2 powi (e - 52)"
    using two_powi_pos [of "e - 52"] by (simp add: two_powi_nat)
  then have "(2::rat) powi e \<le> of_int n * 2 powi (e - 52)" using q by simp
  moreover have "(2::rat) ^ k \<le> 2 powi e"
    using two_powi_mono [of "int k" e] k e' by (simp add: two_powi_nat)
  ultimately show ?thesis using round64_pos [OF x e_def n_def] by auto
qed

lemma round64_exact:
  assumes "N < 2 ^ 53"
  shows "round64 (of_nat N) = Finite (of_nat N)"
proof (cases "N = 0")
  case True
  then show ?thesis by (simp add: round64_def)
next
  case False
  define x :: rat where "x = of_nat N"
  have x: "0 < x" "1 \<le> x" using False by (simp_all add: x_def)
  have x53: "x < 2 ^ 53"
  proof -
    have "(of_nat N :: rat) < of_nat (2 ^ 53)" using assms by (simp only: of_nat_less_iff)
    then show ?thesis by (simp add: x_def)
  qed
  define e where "e = floorLog2 x"
  note b = floorLog2_bounds [OF x(1), folded e_def]
  have "(2::rat) powi 0 < 2 powi (e + 1)" using b x(2) by simp
  then have e0: "0 \<le> e" using two_powi_less_exp by fastforce
  have "(2::rat) powi e < 2 powi 53" using b x53 by (simp add: two_powi_nat)
  then have e52: "e \<le> 52" using two_powi_less_exp by fastforce
  have m: "max e (- 1022) = e" using e0 by simp
  define j where "j = nat (52 - e)"
  have q: "(2::rat) powi (e - 52) = 1 / 2 ^ j"
    using e52 by (simp add: j_def power_int_def field_simps)
  have d: "x / 2 powi (e - 52) = of_int (int N * 2 ^ j)"
    by (simp add: q x_def)
  have n: "roundHalfEven (x / 2 powi (e - 52)) = int N * 2 ^ j"
    unfolding d by (rule roundHalfEven_int)
  have r: "of_int (int N * 2 ^ j) * (2::rat) powi (e - 52) = x"
    by (simp add: q x_def)
  have "x < overflowBound"
    using x53 by (simp add: overflowBound_def)
  moreover have "of_int (roundHalfEven (x / 2 powi (max (floorLog2 x) (- 1022) - 52))) *
      2 powi (max (floorLog2 x) (- 1022) - 52) = x"
    using m n r by (simp add: e_def)
  ultimately have "round64 x = Finite x"
    using x(1) by (simp add: round64_def Let_def)
  then show ?thesis by (simp add: x_def)
qed

section \<open>The loop selects the last temporal parameter\<close>

lemma ampJoin_simps:
  "ampJoin [] = []" "ampJoin (seg # segs) = CHR ''&'' # seg @ ampJoin segs"
  by (simp_all add: ampJoin_def)

lemma matchHere_other: "c \<noteq> CHR ''&'' \<Longrightarrow> matchHere False (c # s) = None"
  by (simp add: matchHere_def startsWith_def)

lemma regexExec_skip:
  "CHR ''&'' \<notin> set seg \<Longrightarrow> regexExec False (seg @ r) = regexExec False r"
  by (induction seg) (auto simp: matchHere_other)

lemma startsWith_seg:
  assumes "CHR ''&'' \<notin> set seg"
  shows "startsWith (seg @ ampJoin segs) ''t='' = startsWith seg ''t=''"
proof (cases seg)
  case Nil
  then show ?thesis by (cases segs) (auto simp: startsWith_def ampJoin_simps)
next
  case (Cons x xs)
  then show ?thesis by (cases xs; cases segs) (auto simp: startsWith_def ampJoin_simps)
qed

lemma capture_seg:
  assumes "CHR ''&'' \<notin> set seg"
  shows "takeWhile notAmp (seg @ ampJoin segs) = seg"
    and "dropWhile notAmp (seg @ ampJoin segs) = ampJoin segs"
proof -
  have a: "\<forall>x \<in> set seg. notAmp x" using assms by (auto simp: notAmp_def)
  have b: "takeWhile notAmp (ampJoin segs) = []" "dropWhile notAmp (ampJoin segs) = ampJoin segs"
    by (cases segs; simp add: ampJoin_simps notAmp_def)+
  show "takeWhile notAmp (seg @ ampJoin segs) = seg"
    using a b by (simp add: takeWhile_append2)
  show "dropWhile notAmp (seg @ ampJoin segs) = ampJoin segs"
    using a b by (simp add: dropWhile_append2)
qed

lemma startsWith_length: "startsWith s p \<Longrightarrow> length p \<le> length s"
  unfolding startsWith_def by (metis length_take min.cobounded1)

lemma match_seg:
  assumes "CHR ''&'' \<notin> set seg" "startsWith seg ''t=''"
  shows "takeWhile notAmp (drop 2 (seg @ ampJoin segs)) = drop 2 seg"
    and "dropWhile notAmp (drop 2 (seg @ ampJoin segs)) = ampJoin segs"
proof -
  have "2 \<le> length seg" using startsWith_length [OF assms(2)] by simp
  then have d: "drop 2 (seg @ ampJoin segs) = drop 2 seg @ ampJoin segs" by simp
  have n: "CHR ''&'' \<notin> set (drop 2 seg)" using assms(1) by (meson in_set_dropD)
  show "takeWhile notAmp (drop 2 (seg @ ampJoin segs)) = drop 2 seg"
    unfolding d by (rule capture_seg(1) [OF n])
  show "dropWhile notAmp (drop 2 (seg @ ampJoin segs)) = ampJoin segs"
    unfolding d by (rule capture_seg(2) [OF n])
qed

lemma regexExec_amp:
  assumes "CHR ''&'' \<notin> set seg"
  shows "regexExec False (ampJoin (seg # segs)) =
           (if startsWith seg ''t='' then Some (drop 2 seg, ampJoin segs)
            else regexExec False (ampJoin segs))"
proof -
  have sw: "startsWith (CHR ''&'' # seg @ ampJoin segs) ''&t='' = startsWith seg ''t=''"
    using startsWith_seg [OF assms, of segs] by (simp add: startsWith_def)
  show ?thesis
  proof (cases "startsWith seg ''t=''")
    case True
    then show ?thesis
      using sw match_seg [OF assms True, of segs]
      by (simp add: ampJoin_simps matchHere_def)
  next
    case False
    then have "matchHere False (CHR ''&'' # seg @ ampJoin segs) = None"
      using sw by (simp add: matchHere_def)
    then show ?thesis
      using False regexExec_skip [OF assms, of "ampJoin segs"] by (simp add: ampJoin_simps)
  qed
qed

lemma regexExec_start:
  assumes "CHR ''&'' \<notin> set seg"
  shows "regexExec True (seg @ ampJoin segs) =
           (if startsWith seg ''t='' then Some (drop 2 seg, ampJoin segs)
            else regexExec False (ampJoin segs))"
proof (cases "startsWith seg ''t=''")
  case True
  then have m: "matchHere True (seg @ ampJoin segs) = Some (drop 2 seg, ampJoin segs)"
    using startsWith_seg [OF assms, of segs] match_seg [OF assms True, of segs]
    by (simp add: matchHere_def)
  have "seg @ ampJoin segs \<noteq> []" using startsWith_length [OF True] by auto
  then obtain c s where "seg @ ampJoin segs = c # s" by (cases "seg @ ampJoin segs") auto
  then show ?thesis using m True by simp
next
  case False
  then have nm: "\<not> startsWith (seg @ ampJoin segs) ''t=''"
    using startsWith_seg [OF assms, of segs] by simp
  have eq: "regexExec True s = regexExec False s" if "\<not> startsWith s ''t=''" for s
    using that by (cases s) (simp_all add: matchHere_def)
  show ?thesis
    using False eq [OF nm] regexExec_skip [OF assms, of "ampJoin segs"] by simp
qed

lemma execLoop_amp:
  "\<forall>seg \<in> set segs. CHR ''&'' \<notin> set seg \<Longrightarrow>
     execLoop False (ampJoin segs) tm = lastTemporal segs tm"
proof (induction segs arbitrary: tm)
  case Nil
  show ?case
    by (subst execLoop.simps) (simp add: ampJoin_simps matchHere_def startsWith_def lastTemporal_def)
next
  case (Cons seg segs)
  then have n: "CHR ''&'' \<notin> set seg" and r: "\<forall>seg \<in> set segs. CHR ''&'' \<notin> set seg"
    by simp_all
  have ih: "execLoop False (ampJoin segs) tm' = lastTemporal segs tm'" for tm'
    using Cons.IH [OF r] .
  have unfold_rest: "execLoop False (ampJoin segs) tm =
      (case regexExec False (ampJoin segs) of None \<Rightarrow> tm
       | Some (cap, rest) \<Rightarrow> execLoop False rest (Some cap))"
    by (subst execLoop.simps) simp
  show ?case
  proof (cases "startsWith seg ''t=''")
    case True
    have "execLoop False (ampJoin (seg # segs)) tm = execLoop False (ampJoin segs) (Some (drop 2 seg))"
      by (subst execLoop.simps) (simp add: regexExec_amp [OF n] True)
    then show ?thesis using True ih by (simp add: lastTemporal_def)
  next
    case False
    have "execLoop False (ampJoin (seg # segs)) tm = execLoop False (ampJoin segs) tm"
      by (subst execLoop.simps, subst unfold_rest) (simp add: regexExec_amp [OF n] False)
    then show ?thesis using False ih by (simp add: lastTemporal_def)
  qed
qed

lemma execLoop_segments:
  assumes "CHR ''&'' \<notin> set seg" "\<forall>seg \<in> set segs. CHR ''&'' \<notin> set seg"
  shows "execLoop True (seg @ ampJoin segs) tm = lastTemporal (seg # segs) tm"
proof -
  have unfold_rest: "execLoop False (ampJoin segs) tm =
      (case regexExec False (ampJoin segs) of None \<Rightarrow> tm
       | Some (cap, rest) \<Rightarrow> execLoop False rest (Some cap))"
    by (subst execLoop.simps) simp
  show ?thesis
  proof (cases "startsWith seg ''t=''")
    case True
    have "execLoop True (seg @ ampJoin segs) tm = execLoop False (ampJoin segs) (Some (drop 2 seg))"
      by (subst execLoop.simps) (simp add: regexExec_start [OF assms(1)] True)
    then show ?thesis using True execLoop_amp [OF assms(2)] by (simp add: lastTemporal_def)
  next
    case False
    have "execLoop True (seg @ ampJoin segs) tm = execLoop False (ampJoin segs) tm"
      by (subst execLoop.simps, subst unfold_rest) (simp add: regexExec_start [OF assms(1)] False)
    then show ?thesis using False execLoop_amp [OF assms(2)] by (simp add: lastTemporal_def)
  qed
qed

lemma execLoop_split:
  "execLoop True fragment tm = lastTemporal (js_split CHR ''&'' fragment) tm"
proof -
  define segs where "segs = js_split CHR ''&'' fragment"
  have ne: "segs \<noteq> []" by (simp add: segs_def js_split_not_Nil)
  have parts: "\<forall>seg \<in> set segs. CHR ''&'' \<notin> set seg"
    by (auto simp: segs_def dest: js_split_parts)
  have j: "hd segs @ ampJoin (tl segs) = fragment"
    unfolding segs_def ampJoin_def by (rule js_split_join)
  have "execLoop True (hd segs @ ampJoin (tl segs)) tm = lastTemporal (hd segs # tl segs) tm"
    using parts ne by (intro execLoop_segments) (auto dest: list.set_sel)
  then show ?thesis using j ne by (simp add: segs_def)
qed

section \<open>From the URI to the selected value\<close>

lemma parseMediaFragment_no_hash:
  "CHR ''#'' \<notin> set u \<Longrightarrow> parseMediaFragment u = Inr absent"
  by (simp add: parseMediaFragment_def indexOf_absent)

lemma parseMediaFragment_body:
  assumes "CHR ''#'' \<notin> set u"
  shows "parseMediaFragment (u @ CHR ''#'' # body) =
           parseTemporalValue (lastTemporal (js_split CHR ''&'' body) None)"
proof -
  have "indexOf (u @ CHR ''#'' # body) CHR ''#'' = int (length u)"
    using assms by (rule indexOf_first)
  moreover have "nat (int (length u) + 1) = Suc (length u)" by simp
  ultimately show ?thesis
    by (simp add: parseMediaFragment_def Let_def execLoop_split)
qed

lemma lastTemporal_snoc:
  "lastTemporal (segs @ [''t='' @ v]) tm = Some v"
  by (simp add: lastTemporal_def startsWith_def)

lemma lastTemporal_none:
  "\<forall>p \<in> set segs. \<not> startsWith p ''t='' \<Longrightarrow> lastTemporal segs tm = tm"
  by (induction segs arbitrary: tm) (auto simp: lastTemporal_def)

lemma js_split_ampJoin:
  "CHR ''&'' \<notin> set p \<Longrightarrow> list_all (\<lambda>q. CHR ''&'' \<notin> set q) ps \<Longrightarrow>
     js_split CHR ''&'' (p @ ampJoin ps) = p # ps"
proof (induction ps arbitrary: p)
  case Nil
  then show ?case by (simp add: ampJoin_simps js_split_no_sep)
next
  case (Cons q ps)
  then have "js_split CHR ''&'' (q @ ampJoin ps) = q # ps" by simp
  then show ?case
    using Cons.prems(1)
    by (simp add: ampJoin_simps js_split_append js_split_no_sep)
qed

lemma lastTemporal_append:
  "lastTemporal (xs @ ys) tm = lastTemporal ys (lastTemporal xs tm)"
  by (simp add: lastTemporal_def)

lemma js_split_param:
  assumes "paramStart pre"
  shows "\<exists>segs. js_split CHR ''&'' (pre @ s) = segs @ js_split CHR ''&'' s"
proof (cases "pre = []")
  case True
  then show ?thesis by simp
next
  case False
  then obtain b where b: "pre = b @ [CHR ''&'']"
    using assms by (metis paramStart_def append_butlast_last_id)
  have "js_split CHR ''&'' (pre @ s) = js_split CHR ''&'' b @ js_split CHR ''&'' s"
    unfolding b using js_split_append [of "CHR ''&''" b s] by simp
  then show ?thesis by blast
qed

lemma parseMediaFragment_selected:
  assumes "CHR ''#'' \<notin> set u" "paramStart pre" "CHR ''&'' \<notin> set v" "otherParams ps"
  shows "parseMediaFragment (u @ ''#'' @ pre @ ''t='' @ v @ ampJoin ps) =
           parseTemporalValue (Some v)"
proof -
  have n: "CHR ''&'' \<notin> set (''t='' @ v)" using assms(3) by simp
  have o: "list_all (\<lambda>q. CHR ''&'' \<notin> set q) ps" "\<forall>p \<in> set ps. \<not> startsWith p ''t=''"
    using assms(4) by (simp_all add: otherParams_def list_all_iff)
  obtain segs where
    "js_split CHR ''&'' (pre @ (''t='' @ v) @ ampJoin ps) =
       segs @ js_split CHR ''&'' ((''t='' @ v) @ ampJoin ps)"
    using js_split_param [OF assms(2)] by blast
  then have "js_split CHR ''&'' (pre @ ''t='' @ v @ ampJoin ps) = (segs @ [''t='' @ v]) @ ps"
    using js_split_ampJoin [OF n o(1)] by simp
  then have "lastTemporal (js_split CHR ''&'' (pre @ ''t='' @ v @ ampJoin ps)) None = Some v"
    using lastTemporal_snoc [of segs v None] lastTemporal_none [OF o(2), of "Some v"]
    by (simp only: lastTemporal_append)
  then show ?thesis
    using parseMediaFragment_body [OF assms(1), of "pre @ ''t='' @ v @ ampJoin ps"] by simp
qed

lemma count_cleanValue: "count_list (cleanValue v) CHR '','' = count_list v CHR '',''"
proof (cases "startsWith v ''npt:''")
  case True
  have "length ''npt:'' = 4" by simp
  with True have t: "take 4 v = ''npt:''" unfolding startsWith_def by metis
  have "count_list (take 4 v @ drop 4 v) CHR '','' = count_list (drop 4 v) CHR '',''"
    unfolding t by simp
  then show ?thesis using True by (simp add: cleanValue_def)
next
  case False
  then show ?thesis by (simp add: cleanValue_def)
qed

lemma parseTemporalValue_too_many:
  assumes "2 \<le> count_list v CHR '',''"
  shows "parseTemporalValue (Some v) = Inr absent"
proof -
  have "3 \<le> length (js_split CHR '','' (cleanValue v))"
    using assms by (simp add: length_js_split count_cleanValue)
  then show ?thesis by (simp add: parseTemporalValue_def Let_def)
qed

section \<open>Repeated temporal parameters\<close>

text \<open>
  Claim C1. When the fragment body holds several \<^verbatim>\<open>t=\<close> parameters, only the last
  literal occurrence is processed: whatever stands before it (the earlier occurrences,
  well-formed or not) and whatever other parameters follow it, the result is the result
  of the last value alone. So a malformed last value makes the result absent, with no
  fall back to an earlier valid one, and \<^verbatim>\<open>#t=5&t=15,25\<close> gives
  \<open>{start: 15, end: 25}\<close>.
\<close>

theorem last_occurrence_wins:
  assumes "CHR ''#'' \<notin> set u" and "paramStart pre" and "CHR ''&'' \<notin> set v"
    and "otherParams ps"
  shows "parseMediaFragment (u @ ''#'' @ pre @ ''t='' @ v @ ampJoin ps) =
           parseMediaFragment (''#t='' @ v)"
proof -
  have "parseMediaFragment ([] @ ''#'' @ [] @ ''t='' @ v @ ampJoin []) = parseTemporalValue (Some v)"
    by (rule parseMediaFragment_selected) (simp_all add: paramStart_def otherParams_def assms(3))
  then show ?thesis
    using parseMediaFragment_selected [OF assms] by (simp add: ampJoin_simps)
qed

theorem last_occurrence_wins_witness:
  "CHR ''#'' \<notin> set ''http://example.com/video.m3u8'' \<and> paramStart ''t=5&'' \<and>
   CHR ''&'' \<notin> set ''15,25'' \<and> otherParams [''track=video''] \<and>
   paramStart ''t=5,10&'' \<and> CHR ''&'' \<notin> set ''abc'' \<and> otherParams [] \<and>
   parseMediaFragment ''http://example.com/video.m3u8#t=5&t=15,25&track=video'' =
     Inr \<lparr>temporalFragment = Some \<lparr>start = Some (Finite 15), end' = Some (Finite 25)\<rparr>\<rparr> \<and>
   parseMediaFragment ''http://example.com/video.m3u8#t=5&t=15,25'' =
     Inr \<lparr>temporalFragment = Some \<lparr>start = Some (Finite 15), end' = Some (Finite 25)\<rparr>\<rparr> \<and>
   parseMediaFragment ''http://example.com/video.m3u8#t=5,10&t=abc'' = Inr absent"
proof -
  have h1: "CHR ''#'' \<notin> set ''http://example.com/video.m3u8''" by simp
  have h2: "paramStart ''t=5&''" by (simp add: paramStart_def)
  have h3: "CHR ''&'' \<notin> set ''15,25''" by simp
  have h4: "otherParams [''track=video'']" by (simp add: otherParams_def startsWith_def)
  have h5: "paramStart ''t=5,10&''" by (simp add: paramStart_def)
  have h6: "CHR ''&'' \<notin> set ''abc''" by simp
  have h7: "otherParams []" by (simp add: otherParams_def)
  have e1: "parseMediaFragment ''#t=15,25'' =
      Inr \<lparr>temporalFragment = Some \<lparr>start = Some (Finite 15), end' = Some (Finite 25)\<rparr>\<rparr>"
    by code_simp
  have e2: "parseMediaFragment ''#t=abc'' = Inr absent" by code_simp
  have r1: "parseMediaFragment ''http://example.com/video.m3u8#t=5&t=15,25&track=video'' =
      Inr \<lparr>temporalFragment = Some \<lparr>start = Some (Finite 15), end' = Some (Finite 25)\<rparr>\<rparr>"
    using last_occurrence_wins [OF h1 h2 h3 h4] e1 by (simp add: ampJoin_def)
  have r2: "parseMediaFragment ''http://example.com/video.m3u8#t=5&t=15,25'' =
      Inr \<lparr>temporalFragment = Some \<lparr>start = Some (Finite 15), end' = Some (Finite 25)\<rparr>\<rparr>"
    using last_occurrence_wins [OF h1 h2 h3 h7] e1 by (simp add: ampJoin_def)
  have r3: "parseMediaFragment ''http://example.com/video.m3u8#t=5,10&t=abc'' = Inr absent"
    using last_occurrence_wins [OF h1 h5 h6 h7] e2 by (simp add: ampJoin_def)
  show ?thesis by (intro conjI h1 h2 h3 h4 h5 h6 h7 r1 r2 r3)
qed

section \<open>Basic shapes\<close>

text \<open>
  Claim C7. The examples of the basic shapes: \<^verbatim>\<open>#t=10,20\<close> gives start 10 and end 20,
  \<^verbatim>\<open>#t=10\<close> gives start 10 with no end, \<^verbatim>\<open>#t=,20\<close> gives end 20 with no start, and
  the prefix of \<^verbatim>\<open>#t=npt:15,25\<close> is removed, giving start 15 and end 25.
\<close>

theorem basic_shapes:
  "parseMediaFragment ''#t=10,20'' =
     Inr \<lparr>temporalFragment = Some \<lparr>start = Some (Finite 10), end' = Some (Finite 20)\<rparr>\<rparr> \<and>
   parseMediaFragment ''#t=10'' =
     Inr \<lparr>temporalFragment = Some \<lparr>start = Some (Finite 10), end' = None\<rparr>\<rparr> \<and>
   parseMediaFragment ''#t=,20'' =
     Inr \<lparr>temporalFragment = Some \<lparr>start = None, end' = Some (Finite 20)\<rparr>\<rparr> \<and>
   parseMediaFragment ''#t=npt:15,25'' =
     Inr \<lparr>temporalFragment = Some \<lparr>start = Some (Finite 15), end' = Some (Finite 25)\<rparr>\<rparr>"
proof -
  have a: "parseMediaFragment ''#t=10,20'' =
      Inr \<lparr>temporalFragment = Some \<lparr>start = Some (Finite 10), end' = Some (Finite 20)\<rparr>\<rparr>"
    by code_simp
  have b: "parseMediaFragment ''#t=10'' =
      Inr \<lparr>temporalFragment = Some \<lparr>start = Some (Finite 10), end' = None\<rparr>\<rparr>"
    by code_simp
  have c: "parseMediaFragment ''#t=,20'' =
      Inr \<lparr>temporalFragment = Some \<lparr>start = None, end' = Some (Finite 20)\<rparr>\<rparr>"
    by code_simp
  have d: "parseMediaFragment ''#t=npt:15,25'' =
      Inr \<lparr>temporalFragment = Some \<lparr>start = Some (Finite 15), end' = Some (Finite 25)\<rparr>\<rparr>"
    by code_simp
  show ?thesis by (intro conjI a b c d)
qed

section \<open>URIs without a temporal parameter\<close>

text \<open>
  Claim C8. A URI with no \<^verbatim>\<open>#\<close>, with an empty fragment body, or whose fragment body
  holds no parameter that begins with \<^verbatim>\<open>t=\<close>, has an absent result; and what stands
  before the first \<^verbatim>\<open>#\<close> (query parameters included) has no influence on the result.
\<close>

theorem no_temporal_parameter_absent:
  assumes "CHR ''#'' \<notin> set u"
  shows "parseMediaFragment u = Inr absent \<and>
         parseMediaFragment (u @ ''#'') = Inr absent \<and>
         ((\<forall>p \<in> set (js_split CHR ''&'' body). \<not> startsWith p ''t='') \<longrightarrow>
            parseMediaFragment (u @ ''#'' @ body) = Inr absent) \<and>
         parseMediaFragment (u @ ''#'' @ body) = parseMediaFragment (''#'' @ body)"
proof -
  have a: "parseMediaFragment u = Inr absent"
    using assms by (rule parseMediaFragment_no_hash)
  have b: "parseMediaFragment (u @ ''#'') = Inr absent"
    using parseMediaFragment_body [OF assms, of "[]"]
    by (simp add: lastTemporal_def startsWith_def parseTemporalValue_def)
  have c: "parseMediaFragment (u @ ''#'' @ body) = Inr absent"
    if "\<forall>p \<in> set (js_split CHR ''&'' body). \<not> startsWith p ''t=''"
    using parseMediaFragment_body [OF assms, of body] lastTemporal_none [OF that, of None]
    by (simp add: parseTemporalValue_def)
  have d: "parseMediaFragment (u @ ''#'' @ body) = parseMediaFragment (''#'' @ body)"
    using parseMediaFragment_body [OF assms, of body] parseMediaFragment_body [of "[]" body]
    by simp
  from a b c d show ?thesis by blast
qed

theorem no_temporal_parameter_absent_witness:
  "CHR ''#'' \<notin> set ''http://example.com/video.m3u8?t=10,20'' \<and>
   list_all (\<lambda>p. \<not> startsWith p ''t='') (js_split CHR ''&'' ''track=video&id=main'') \<and>
   parseMediaFragment ''http://example.com/video.m3u8?t=10,20'' = Inr absent \<and>
   parseMediaFragment ''http://example.com/video.m3u8?t=10,20#'' = Inr absent \<and>
   parseMediaFragment ''http://example.com/video.m3u8?t=10,20#track=video&id=main'' = Inr absent \<and>
   parseMediaFragment ''http://example.com/video.m3u8?t=10,20#track=video&id=main'' =
     parseMediaFragment ''#track=video&id=main''"
proof -
  have h1: "CHR ''#'' \<notin> set ''http://example.com/video.m3u8?t=10,20''" by simp
  have h2: "\<forall>p \<in> set (js_split CHR ''&'' ''track=video&id=main''). \<not> startsWith p ''t=''"
    by (simp add: startsWith_def)
  note t = no_temporal_parameter_absent [OF h1, of "''track=video&id=main''"]
  have r1: "parseMediaFragment ''http://example.com/video.m3u8?t=10,20'' = Inr absent"
    using t by blast
  have r2: "parseMediaFragment ''http://example.com/video.m3u8?t=10,20#'' = Inr absent"
    using t by simp
  have r3: "parseMediaFragment ''http://example.com/video.m3u8?t=10,20#track=video&id=main'' =
      Inr absent"
    using t h2 by simp
  have r4: "parseMediaFragment ''http://example.com/video.m3u8?t=10,20#track=video&id=main'' =
      parseMediaFragment ''#track=video&id=main''"
    using t by simp
  have h2': "list_all (\<lambda>p. \<not> startsWith p ''t='') (js_split CHR ''&'' ''track=video&id=main'')"
    using h2 by (simp add: list_all_iff)
  show ?thesis by (intro conjI h1 h2' r1 r2 r3 r4)
qed

section \<open>Too many parts\<close>

text \<open>
  Claim C9. When the selected \<^verbatim>\<open>t=\<close> value holds two or more commas, it splits into
  three or more parts and the result is absent whatever the parts are, for instance for
  \<^verbatim>\<open>#t=10,20,30\<close>.
\<close>

theorem too_many_parts_absent:
  assumes "CHR ''#'' \<notin> set u" and "paramStart pre" and "CHR ''&'' \<notin> set v"
    and "otherParams ps" and "2 \<le> count_list v CHR '',''"
  shows "parseMediaFragment (u @ ''#'' @ pre @ ''t='' @ v @ ampJoin ps) = Inr absent"
  using parseMediaFragment_selected [OF assms(1-4)] parseTemporalValue_too_many [OF assms(5)]
  by simp

theorem too_many_parts_absent_witness:
  "CHR ''#'' \<notin> set ''http://example.com/video.m3u8'' \<and> paramStart '''' \<and> paramStart ''t=1,2&'' \<and>
   CHR ''&'' \<notin> set ''10,20,30'' \<and> otherParams [] \<and> otherParams [''id=main''] \<and>
   2 \<le> count_list ''10,20,30'' CHR '','' \<and>
   parseMediaFragment ''http://example.com/video.m3u8#t=10,20,30'' = Inr absent \<and>
   parseMediaFragment ''http://example.com/video.m3u8#t=1,2&t=10,20,30&id=main'' = Inr absent"
proof -
  have h1: "CHR ''#'' \<notin> set ''http://example.com/video.m3u8''" by simp
  have h2: "paramStart ''''" "paramStart ''t=1,2&''" by (simp_all add: paramStart_def)
  have h3: "CHR ''&'' \<notin> set ''10,20,30''" by simp
  have h4: "otherParams []" "otherParams [''id=main'']"
    by (simp_all add: otherParams_def startsWith_def)
  have h5: "2 \<le> count_list ''10,20,30'' CHR '',''" by simp
  have r1: "parseMediaFragment ''http://example.com/video.m3u8#t=10,20,30'' = Inr absent"
    using too_many_parts_absent [OF h1 h2(1) h3 h4(1) h5] by (simp add: ampJoin_def)
  have r2: "parseMediaFragment ''http://example.com/video.m3u8#t=1,2&t=10,20,30&id=main'' =
      Inr absent"
    using too_many_parts_absent [OF h1 h2(2) h3 h4(2) h5] by (simp add: ampJoin_def)
  show ?thesis by (intro conjI h1 h2 h3 h4 h5 r1 r2)
qed

section \<open>The shape of every result\<close>

lemma js_ge_not_NaN: "js_ge a b \<Longrightarrow> \<not> js_isNaN a \<and> \<not> js_isNaN b"
  by (simp add: js_ge_def)

lemma not_js_ge: "\<not> js_isNaN a \<Longrightarrow> \<not> js_isNaN b \<Longrightarrow> \<not> js_ge a b \<Longrightarrow> js_lt a b"
  by (simp add: js_ge_def)

lemma parseBound_value: "parseBound t = Some (Some v) \<Longrightarrow> \<not> js_isNaN v"
  by (auto simp: parseBound_def dest: js_ge_not_NaN split: if_splits option.splits)

lemma parseBound_numberOrUnset: "parseBound t = Some x \<Longrightarrow> numberOrUnset x"
  by (cases x) (auto simp: numberOrUnset_def dest: parseBound_value)

lemma checkWindow_invariants:
  assumes "numberOrUnset s" "numberOrUnset e"
    and "temporalFragment (checkWindow s e) = Some f"
  shows "(start f \<noteq> None \<or> end' f \<noteq> None) \<and>
         (\<forall>a b. start f = Some a \<and> end' f = Some b \<longrightarrow> js_lt a b) \<and>
         \<not> (start f = None \<and> end' f = Some (Finite 0))"
proof -
  have f: "f = \<lparr>start = s, end' = e\<rparr>"
    using assms(3) by (auto simp: checkWindow_def absent_def split: if_splits)
  have keep: "checkWindow s e \<noteq> absent"
    using assms(3) by (auto simp: absent_def)
  have 1: "s \<noteq> None \<or> e \<noteq> None"
    using keep by (cases s; cases e) (auto simp: checkWindow_def)
  have 2: "js_lt a b" if "s = Some a" "e = Some b" for a b
  proof -
    have "\<not> js_ge a b" using keep that by (auto simp: checkWindow_def split: if_splits)
    moreover have "\<not> js_isNaN a" "\<not> js_isNaN b"
      using assms(1,2) that by (simp_all add: numberOrUnset_def)
    ultimately show ?thesis by (simp add: not_js_ge)
  qed
  have 3: "\<not> (s = None \<and> e = Some (Finite 0))"
    using keep by (auto simp: checkWindow_def js_strict_eq_def split: if_splits)
  show ?thesis using f 1 2 3 by simp
qed

lemma parseTemporalValue_cases:
  "parseTemporalValue tm = Inr absent \<or>
   (\<exists>s e. numberOrUnset s \<and> numberOrUnset e \<and> parseTemporalValue tm = Inr (checkWindow s e))"
proof (cases tm)
  case None
  then show ?thesis by (simp add: parseTemporalValue_def)
next
  case (Some v)
  define parts where "parts = js_split CHR '','' (cleanValue v)"
  have none: "numberOrUnset None" by (simp add: numberOrUnset_def)
  consider "v = []" | "v \<noteq> []" "length parts = 1" | "v \<noteq> []" "length parts = 2"
    | "v \<noteq> []" "length parts \<noteq> 1" "length parts \<noteq> 2" by blast
  then show ?thesis
  proof cases
    case 1
    then show ?thesis using Some by (simp add: parseTemporalValue_def)
  next
    case 2
    then have pv: "parseTemporalValue tm =
        (case parseBound (trim (parts ! 0)) of None \<Rightarrow> Inr absent
         | Some s \<Rightarrow> Inr (checkWindow s None))"
      using Some by (simp add: parseTemporalValue_def parts_def [symmetric] trimAt_def)
    show ?thesis
    proof (cases "parseBound (trim (parts ! 0))")
      case None
      then show ?thesis using pv by simp
    next
      case (Some s)
      then show ?thesis using pv none parseBound_numberOrUnset [OF Some] by auto
    qed
  next
    case 3
    then have pv: "parseTemporalValue tm =
        (case parseBound (trim (parts ! 0)) of None \<Rightarrow> Inr absent
         | Some s \<Rightarrow> (case parseBound (trim (parts ! Suc 0)) of None \<Rightarrow> Inr absent
             | Some e \<Rightarrow> Inr (checkWindow s e)))"
      using Some by (simp add: parseTemporalValue_def parts_def [symmetric] trimAt_def)
    show ?thesis
    proof (cases "parseBound (trim (parts ! 0))")
      case None
      then show ?thesis using pv by simp
    next
      case s: (Some s)
      show ?thesis
      proof (cases "parseBound (trim (parts ! Suc 0))")
        case None
        then show ?thesis using pv s by simp
      next
        case e: (Some e)
        show ?thesis
          using pv s e parseBound_numberOrUnset [OF s] parseBound_numberOrUnset [OF e] by auto
      qed
    qed
  next
    case 4
    then show ?thesis using Some by (simp add: parseTemporalValue_def parts_def [symmetric])
  qed
qed

lemma parseMediaFragment_cases:
  "parseMediaFragment url = Inr absent \<or>
   (\<exists>s e. numberOrUnset s \<and> numberOrUnset e \<and> parseMediaFragment url = Inr (checkWindow s e))"
proof (cases "indexOf url CHR ''#'' = - 1")
  case True
  then show ?thesis by (simp add: parseMediaFragment_def)
next
  case False
  then have "parseMediaFragment url =
      parseTemporalValue (execLoop True (drop (nat (indexOf url CHR ''#'' + 1)) url) None)"
    by (simp add: parseMediaFragment_def Let_def)
  then show ?thesis
    using parseTemporalValue_cases
      [of "execLoop True (drop (nat (indexOf url CHR ''#'' + 1)) url) None"]
    by simp
qed

text \<open>
  Claim C2. Whenever \<^verbatim>\<open>parseMediaFragment\<close> returns a present temporal fragment, its
  start and end are not both absent; when both are present, start is strictly less than
  end; and it is not the case that start is absent while end is 0.
\<close>

theorem window_invariants:
  assumes "parseMediaFragment url = Inr r" and "temporalFragment r = Some f"
  shows "(start f \<noteq> None \<or> end' f \<noteq> None) \<and>
         (\<forall>a b. start f = Some a \<and> end' f = Some b \<longrightarrow> js_lt a b) \<and>
         \<not> (start f = None \<and> end' f = Some (Finite 0))"
proof -
  have "r \<noteq> absent" using assms(2) by (auto simp: absent_def)
  with assms(1) parseMediaFragment_cases [of url]
  obtain s e where se: "numberOrUnset s" "numberOrUnset e" "r = checkWindow s e"
    by auto
  from se(3) assms(2) have "temporalFragment (checkWindow s e) = Some f" by simp
  with se(1,2) show ?thesis by (rule checkWindow_invariants)
qed

theorem window_invariants_witness:
  "parseMediaFragment ''http://example.com/video.m3u8#t=10,20'' =
     Inr \<lparr>temporalFragment = Some \<lparr>start = Some (Finite 10), end' = Some (Finite 20)\<rparr>\<rparr> \<and>
   js_lt (Finite 10) (Finite 20)"
proof -
  have e: "parseMediaFragment ''http://example.com/video.m3u8#t=10,20'' =
      Inr \<lparr>temporalFragment = Some \<lparr>start = Some (Finite 10), end' = Some (Finite 20)\<rparr>\<rparr>"
    by code_simp
  have "js_lt (Finite 10) (Finite 20)"
    using window_invariants [OF e, of "\<lparr>start = Some (Finite 10), end' = Some (Finite 20)\<rparr>"]
    by simp
  with e show ?thesis ..
qed

text \<open>
  The function returns for every input and never raises: the loop terminates, no index
  is read out of range, and each result is either a present fragment or the one absent
  value, the same value a URI without any fragment gets.
\<close>

lemma parseMediaFragment_total:
  "(parseMediaFragment url = Inr absent \<or>
    (\<exists>f. parseMediaFragment url = Inr \<lparr>temporalFragment = Some f\<rparr>)) \<and>
   parseMediaFragment ''http://example.com/video.m3u8'' = Inr absent"
proof -
  have w: "checkWindow s e = absent \<or> (\<exists>f. checkWindow s e = \<lparr>temporalFragment = Some f\<rparr>)"
    for s e by (simp add: checkWindow_def)
  have a: "parseMediaFragment url = Inr absent \<or>
      (\<exists>f. parseMediaFragment url = Inr \<lparr>temporalFragment = Some f\<rparr>)"
    using parseMediaFragment_cases [of url] w by metis
  have b: "parseMediaFragment ''http://example.com/video.m3u8'' = Inr absent"
    by (rule parseMediaFragment_no_hash) simp
  from a b show ?thesis ..
qed

section \<open>Trimmed parts\<close>

lemma trim_Nil: "trim [] = []"
  by (simp add: trim_def)

lemma parseTemporalValue_parts:
  "parseTemporalValue (Some tm) = windowOfParts (map trim (js_split CHR '','' (cleanValue tm)))"
proof (cases "tm = []")
  case True
  then show ?thesis
    by (simp add: parseTemporalValue_def windowOfParts_def cleanValue_def startsWith_def
        trim_Nil parseBound_def checkWindow_def)
next
  case False
  define parts where "parts = js_split CHR '','' (cleanValue tm)"
  have pv: "parseTemporalValue (Some tm) =
      (if length parts = 1 then
         (case trimAt parts 0 of Inl err \<Rightarrow> Inl err
          | Inr startTime \<Rightarrow>
              (case parseBound startTime of None \<Rightarrow> Inr absent
               | Some s \<Rightarrow> Inr (checkWindow s None)))
       else if length parts = 2 then
         (case trimAt parts 0 of Inl err \<Rightarrow> Inl err
          | Inr startTime \<Rightarrow>
              (case trimAt parts 1 of Inl err \<Rightarrow> Inl err
               | Inr endTime \<Rightarrow>
                   (case parseBound startTime of None \<Rightarrow> Inr absent
                    | Some s \<Rightarrow>
                        (case parseBound endTime of None \<Rightarrow> Inr absent
                         | Some e \<Rightarrow> Inr (checkWindow s e)))))
       else Inr absent)"
    using False by (simp add: parseTemporalValue_def parts_def [symmetric] Let_def)
  have "parseTemporalValue (Some tm) = windowOfParts (map trim parts)"
  proof (cases parts)
    case Nil
    then show ?thesis unfolding pv by (simp add: windowOfParts_def)
  next
    case (Cons p0 ps)
    show ?thesis
    proof (cases ps)
      case Nil
      with Cons show ?thesis unfolding pv by (simp add: windowOfParts_def trimAt_def)
    next
      case ps: (Cons p1 qs)
      show ?thesis
      proof (cases qs)
        case Nil
        with Cons ps show ?thesis unfolding pv by (simp add: windowOfParts_def trimAt_def)
      next
        case (Cons p2 rs)
        with \<open>parts = p0 # ps\<close> ps show ?thesis unfolding pv by (simp add: windowOfParts_def)
      qed
    qed
  qed
  then show ?thesis by (simp add: parts_def)
qed

lemma trim_trailing:
  assumes "list_all isWhiteSpace w"
  shows "rev (dropWhile isWhiteSpace (rev (x @ w))) = rev (dropWhile isWhiteSpace (rev x))"
proof -
  have "\<And>c. c \<in> set (rev w) \<Longrightarrow> isWhiteSpace c" using assms by (simp add: list_all_iff)
  then have "dropWhile isWhiteSpace (rev w @ rev x) = dropWhile isWhiteSpace (rev x)"
    by (rule dropWhile_append2)
  then show ?thesis by simp
qed

lemma trim_padding:
  assumes "list_all isWhiteSpace w1" "list_all isWhiteSpace w2"
  shows "trim (w1 @ a @ w2) = trim a"
proof -
  have "\<And>c. c \<in> set w1 \<Longrightarrow> isWhiteSpace c" using assms(1) by (simp add: list_all_iff)
  then have l: "dropWhile isWhiteSpace (w1 @ a @ w2) = dropWhile isWhiteSpace (a @ w2)"
    by (rule dropWhile_append2)
  have w2: "dropWhile isWhiteSpace w2 = []" using assms(2) by (simp add: list_all_iff)
  show ?thesis
  proof (cases "\<forall>c \<in> set a. isWhiteSpace c")
    case True
    have "\<forall>c \<in> set (a @ w2). isWhiteSpace c"
      using True assms(2) by (auto simp: list_all_iff)
    then have e1: "dropWhile isWhiteSpace (a @ w2) = []"
      by (simp only: dropWhile_eq_Nil_conv)
    have e2: "dropWhile isWhiteSpace a = []" using True by simp
    show ?thesis unfolding trim_def l e1 e2 by simp
  next
    case False
    then obtain c where "c \<in> set a" "\<not> isWhiteSpace c" by blast
    then have "dropWhile isWhiteSpace (a @ w2) = dropWhile isWhiteSpace a @ w2"
      by (rule dropWhile_append1)
    then show ?thesis
      using l trim_trailing [OF assms(2), of "dropWhile isWhiteSpace a"] by (simp add: trim_def)
  qed
qed

lemma whiteSpace_no_comma: "list_all isWhiteSpace w \<Longrightarrow> CHR '','' \<notin> set w"
  by (induction w) (auto simp: isWhiteSpace_def)

lemma trim_core:
  assumes "list_all isWhiteSpace w1" "list_all isWhiteSpace w2"
    and "a = [] \<or> (\<not> isWhiteSpace (hd a) \<and> \<not> isWhiteSpace (last a))"
  shows "trim (w1 @ a @ w2) = a"
proof (cases "a = []")
  case True
  then show ?thesis using trim_padding [OF assms(1,2), of "[]"] by (simp add: trim_Nil)
next
  case False
  then have "trim a = a" using assms(3) by (intro trim_id) simp_all
  then show ?thesis using trim_padding [OF assms(1,2), of a] by simp
qed

lemma js_split_padded:
  assumes "list_all isWhiteSpace w1" "list_all isWhiteSpace w2" "list_all isWhiteSpace w3"
    "list_all isWhiteSpace w4" "CHR '','' \<notin> set a" "CHR '','' \<notin> set b"
  shows "js_split CHR '','' (w1 @ a @ w2 @ '','' @ w3 @ b @ w4) = [w1 @ a @ w2, w3 @ b @ w4]"
proof -
  have l: "CHR '','' \<notin> set (w1 @ a @ w2)" and r: "CHR '','' \<notin> set (w3 @ b @ w4)"
    using assms by (auto dest: whiteSpace_no_comma)
  have "js_split CHR '','' ((w1 @ a @ w2) @ CHR '','' # (w3 @ b @ w4)) =
      (w1 @ a @ w2) # js_split CHR '','' (w3 @ b @ w4)"
    using l by (rule js_split_prepend)
  then show ?thesis using js_split_no_sep [OF r] by simp
qed

text \<open>
  Claim C10. Each comma-separated part of the \<^verbatim>\<open>t=\<close> value is trimmed of leading and
  trailing white space before its time value is parsed: the result is the window of the
  trimmed parts of the value (taken after the \<^verbatim>\<open>npt:\<close> prefix), so white space
  around the two parts changes nothing, and trimming removes exactly the white space
  around a part. So \<^verbatim>\<open>#t= 10 , 20\<close> gives start 10 and end 20 as \<^verbatim>\<open>#t=10,20\<close>
  does, and a part of white space only counts as an empty part.
\<close>

theorem parts_are_trimmed:
  assumes "CHR ''#'' \<notin> set u" and "paramStart pre" and "otherParams ps"
    and "CHR ''&'' \<notin> set tm"
  shows "parseMediaFragment (u @ ''#'' @ pre @ ''t='' @ tm @ ampJoin ps) =
           windowOfParts (map trim (js_split CHR '','' (cleanValue tm))) \<and>
         (list_all isWhiteSpace w1 \<and> list_all isWhiteSpace w2 \<and>
          list_all isWhiteSpace w3 \<and> list_all isWhiteSpace w4 \<and>
          CHR '','' \<notin> set a \<and> CHR '','' \<notin> set b \<and>
          cleanValue tm = w1 @ a @ w2 @ '','' @ w3 @ b @ w4 \<longrightarrow>
            parseMediaFragment (u @ ''#'' @ pre @ ''t='' @ tm @ ampJoin ps) =
              windowOfParts [trim a, trim b]) \<and>
         (list_all isWhiteSpace w1 \<and> list_all isWhiteSpace w2 \<and>
          (a = [] \<or> (\<not> isWhiteSpace (hd a) \<and> \<not> isWhiteSpace (last a))) \<longrightarrow>
            trim (w1 @ a @ w2) = a) \<and>
         parseMediaFragment ''#t= 10 , 20'' =
           Inr \<lparr>temporalFragment = Some \<lparr>start = Some (Finite 10), end' = Some (Finite 20)\<rparr>\<rparr> \<and>
         parseMediaFragment ''#t=  ,20'' =
           Inr \<lparr>temporalFragment = Some \<lparr>start = None, end' = Some (Finite 20)\<rparr>\<rparr>"
proof -
  have 1: "parseMediaFragment (u @ ''#'' @ pre @ ''t='' @ tm @ ampJoin ps) =
      windowOfParts (map trim (js_split CHR '','' (cleanValue tm)))"
    using parseMediaFragment_selected [OF assms(1,2,4,3)] by (simp add: parseTemporalValue_parts)
  have 2: "parseMediaFragment (u @ ''#'' @ pre @ ''t='' @ tm @ ampJoin ps) =
      windowOfParts [trim a, trim b]"
    if "list_all isWhiteSpace w1" "list_all isWhiteSpace w2" "list_all isWhiteSpace w3"
      "list_all isWhiteSpace w4" "CHR '','' \<notin> set a" "CHR '','' \<notin> set b"
      "cleanValue tm = w1 @ a @ w2 @ '','' @ w3 @ b @ w4"
  proof -
    have "map trim (js_split CHR '','' (cleanValue tm)) = [trim (w1 @ a @ w2), trim (w3 @ b @ w4)]"
      unfolding that(7) js_split_padded [OF that(1-6)] by simp
    then show ?thesis
      unfolding 1 using trim_padding [OF that(1,2), of a] trim_padding [OF that(3,4), of b]
      by simp
  qed
  have 3: "trim (w1 @ a @ w2) = a"
    if "list_all isWhiteSpace w1" "list_all isWhiteSpace w2"
      "a = [] \<or> (\<not> isWhiteSpace (hd a) \<and> \<not> isWhiteSpace (last a))"
    using that by (rule trim_core)
  have 4: "parseMediaFragment ''#t= 10 , 20'' =
      Inr \<lparr>temporalFragment = Some \<lparr>start = Some (Finite 10), end' = Some (Finite 20)\<rparr>\<rparr>"
    by code_simp
  have 5: "parseMediaFragment ''#t=  ,20'' =
      Inr \<lparr>temporalFragment = Some \<lparr>start = None, end' = Some (Finite 20)\<rparr>\<rparr>"
    by code_simp
  from 1 2 3 4 5 show ?thesis by blast
qed

theorem parts_are_trimmed_witness:
  "CHR ''#'' \<notin> set ''http://example.com/video.m3u8'' \<and> paramStart ''id=1&'' \<and>
   otherParams [''track=video''] \<and> CHR ''&'' \<notin> set ''npt: 10 , 20 '' \<and>
   list_all isWhiteSpace '' '' \<and> CHR '','' \<notin> set ''10'' \<and> CHR '','' \<notin> set ''20'' \<and>
   cleanValue ''npt: 10 , 20 '' = '' '' @ ''10'' @ '' '' @ '','' @ '' '' @ ''20'' @ '' '' \<and>
   parseMediaFragment ''http://example.com/video.m3u8#id=1&t=npt: 10 , 20 &track=video'' =
     Inr \<lparr>temporalFragment = Some \<lparr>start = Some (Finite 10), end' = Some (Finite 20)\<rparr>\<rparr> \<and>
   trim '' 10 '' = ''10''"
proof -
  have h1: "CHR ''#'' \<notin> set ''http://example.com/video.m3u8''" by simp
  have h2: "paramStart ''id=1&''" by (simp add: paramStart_def)
  have h3: "otherParams [''track=video'']" by (simp add: otherParams_def startsWith_def)
  have h4: "CHR ''&'' \<notin> set ''npt: 10 , 20 ''" by simp
  have w: "list_all isWhiteSpace '' ''" by (simp add: isWhiteSpace_def)
  have c: "CHR '','' \<notin> set ''10''" "CHR '','' \<notin> set ''20''" by simp_all
  have v: "cleanValue ''npt: 10 , 20 '' = '' '' @ ''10'' @ '' '' @ '','' @ '' '' @ ''20'' @ '' ''"
    by (simp add: cleanValue_def startsWith_def)
  have n: "\<not> isWhiteSpace CHR ''1''" "\<not> isWhiteSpace CHR ''0''"
    by (simp_all add: isWhiteSpace_def)
  note t = parts_are_trimmed [OF h1 h2 h3 h4, of "'' ''" "'' ''" "'' ''" "'' ''" "''10''" "''20''"]
  have r3: "trim '' 10 '' = ''10''" using t w n by simp
  have r3': "trim ''10'' = ''10''" "trim ''20'' = ''20''" by code_simp+
  have e: "windowOfParts [''10'', ''20''] =
      Inr \<lparr>temporalFragment = Some \<lparr>start = Some (Finite 10), end' = Some (Finite 20)\<rparr>\<rparr>"
    by code_simp
  have "parseMediaFragment
      (''http://example.com/video.m3u8'' @ ''#'' @ ''id=1&'' @ ''t='' @ ''npt: 10 , 20 '' @
       ampJoin [''track=video'']) = windowOfParts [trim ''10'', trim ''20'']"
    using t w c v by blast
  then have r1: "parseMediaFragment
      ''http://example.com/video.m3u8#id=1&t=npt: 10 , 20 &track=video'' =
      Inr \<lparr>temporalFragment = Some \<lparr>start = Some (Finite 10), end' = Some (Finite 20)\<rparr>\<rparr>"
    unfolding r3' e by (simp add: ampJoin_def)
  show ?thesis by (intro conjI h1 h2 h3 h4 w c v r1 r3)
qed

section \<open>Text after the number of a colon group\<close>

text \<open>
  Claim C3 says that a bound with non-numeric content fails to parse and makes the whole
  result absent. In a colon-separated bound each group goes through \<^verbatim>\<open>parseFloat\<close>,
  which reads a numeric prefix and ignores what follows, so \<^verbatim>\<open>1abc:30\<close> is read as 1
  minute 30 seconds: the URI below gets a window although its start bound holds letters.
\<close>

theorem colon_group_trailing_text:
  "parseMediaFragment ''http://example.com/video.m3u8#t=1abc:30,2:00'' =
     Inr \<lparr>temporalFragment = Some \<lparr>start = Some (Finite 90), end' = Some (Finite 120)\<rparr>\<rparr>"
  by code_simp

section \<open>A malformed bound that yields a window\<close>

text \<open>
  Claim C5 says that the function never raises and that malformed or out-of-range input
  yields the absent result. The first half holds (\<open>parseMediaFragment_total\<close>). The
  second fails where a colon group carries text after its number: the bound
  \<^verbatim>\<open>12:30xyz\<close> is read as 12 minutes 30 seconds and the URI below gets a window.
\<close>

theorem malformed_bound_gives_window:
  "parseMediaFragment ''http://example.com/video.m3u8#t=12:30xyz'' =
     Inr \<lparr>temporalFragment = Some \<lparr>start = Some (Finite 750), end' = None\<rparr>\<rparr>"
  by code_simp

section \<open>Time values of the grammar\<close>

lemma isDigit_chars:
  assumes "isDigit c"
  shows "\<not> isWhiteSpace c" "c \<noteq> CHR ''-''" "c \<noteq> CHR ''+''" "c \<noteq> CHR ''.''" "c \<noteq> CHR '':''"
    "c \<noteq> CHR ''I''" "c \<noteq> CHR ''e''" "c \<noteq> CHR ''E''"
  using assms by (auto simp: isDigit_def isWhiteSpace_def)

lemma not_digit: "\<not> isDigit CHR ''.''" "\<not> isDigit CHR '':''" "\<not> isDigit CHR ''-''"
  by (simp_all add: isDigit_def)

lemma not_space: "\<not> isWhiteSpace CHR ''-''"
  by (simp add: isWhiteSpace_def)

lemma takeWhile_digits:
  "list_all isDigit ds \<Longrightarrow> \<not> isDigit c \<Longrightarrow> takeWhile isDigit (ds @ c # r) = ds"
  by (induction ds) auto

lemma dropWhile_digits:
  "list_all isDigit ds \<Longrightarrow> \<not> isDigit c \<Longrightarrow> dropWhile isDigit (ds @ c # r) = c # r"
  by (induction ds) auto

lemma takeWhile_all: "list_all isDigit ds \<Longrightarrow> takeWhile isDigit ds = ds"
  by (induction ds) auto

lemma dropWhile_all: "list_all isDigit ds \<Longrightarrow> dropWhile isDigit ds = []"
  by (induction ds) auto

lemma digits_not_Infinity: "isDigits ds \<Longrightarrow> \<not> startsWith (ds @ r) ''Infinity''"
  by (cases ds) (auto simp: isDigits_def startsWith_def dest: isDigit_chars(6))

lemma literal_digits:
  assumes "isDigits ds" "list_all isDigit fs"
  shows "strUnsignedDecimalLiteral (nptSeconds ds fs) = secondsNumber ds fs"
proof (cases "fs = []")
  case True
  have "\<not> startsWith ds ''Infinity''" using digits_not_Infinity [OF assms(1), of "[]"] by simp
  then show ?thesis
    using assms True
    by (simp add: strUnsignedDecimalLiteral_def nptSeconds_def secondsNumber_def secondsValue_def isDigits_def
        takeWhile_all dropWhile_all decimalValue_def scale10_def digitsVal_def)
next
  case False
  have d: "list_all isDigit ds" "ds \<noteq> []" using assms(1) by (simp_all add: isDigits_def)
  have n: "\<not> startsWith (ds @ CHR ''.'' # fs) ''Infinity''"
    using digits_not_Infinity [OF assms(1)] .
  show ?thesis
    using False n d assms(2)
    by (simp add: strUnsignedDecimalLiteral_def nptSeconds_def secondsNumber_def secondsValue_def
        takeWhile_digits dropWhile_digits not_digit takeWhile_all dropWhile_all
        decimalValue_def scale10_def exponentPart_def)
qed

lemma nptSeconds_head:
  assumes "isDigits ds"
  shows "\<exists>c r. nptSeconds ds fs = c # r \<and> isDigit c"
proof -
  obtain c r where "ds = c # r" "isDigit c"
    using assms by (cases ds) (auto simp: isDigits_def)
  then show ?thesis by (simp add: nptSeconds_def)
qed

lemma parseFloat_digits:
  assumes "isDigits ds" "list_all isDigit fs"
  shows "parseFloat (nptSeconds ds fs) = secondsNumber ds fs"
proof -
  obtain c r where cr: "nptSeconds ds fs = c # r" "isDigit c"
    using nptSeconds_head [OF assms(1), of fs] by blast
  have "parseFloat (c # r) = strUnsignedDecimalLiteral (c # r)"
    using cr(2) by (simp add: parseFloat_def isDigit_chars)
  then show ?thesis using literal_digits [OF assms] cr(1) by simp
qed

lemma parseFloat_negative:
  assumes "isDigits ds" "list_all isDigit fs"
  shows "parseFloat (CHR ''-'' # nptSeconds ds fs) = js_neg (secondsNumber ds fs)"
  using literal_digits [OF assms] by (simp add: parseFloat_def not_space)

lemma digits_no_colon: "list_all isDigit ds \<Longrightarrow> CHR '':'' \<notin> set ds"
  by (induction ds) (auto dest: isDigit_chars(5))

lemma nptSeconds_no_colon:
  assumes "isDigits ds" "list_all isDigit fs"
  shows "CHR '':'' \<notin> set (nptSeconds ds fs)"
  using assms digits_no_colon [of ds] digits_no_colon [of fs]
  by (simp add: nptSeconds_def isDigits_def)

lemma nptSeconds_last:
  assumes "isDigits ds" "list_all isDigit fs"
  shows "nptSeconds ds fs \<noteq> [] \<and> isDigit (last (nptSeconds ds fs))"
proof -
  have l: "isDigit (last xs)" if "xs \<noteq> []" "list_all isDigit xs" for xs
    using that by (simp add: list_all_iff)
  show ?thesis
    using assms l [of ds] l [of fs] by (simp add: nptSeconds_def isDigits_def)
qed

lemma isNptSec_chars:
  assumes "isNptSec s"
  shows "\<forall>c \<in> set s. isDigit c \<or> c = CHR ''.''"
proof -
  have t: "\<forall>c \<in> set (takeWhile isDigit s). isDigit c"
    by (auto dest: set_takeWhileD)
  have d: "\<forall>c \<in> set (dropWhile isDigit s). isDigit c \<or> c = CHR ''.''"
  proof (cases "dropWhile isDigit s")
    case Nil
    show ?thesis unfolding Nil by simp
  next
    case (Cons x fs)
    then have "x = CHR ''.''" "list_all isDigit fs" using assms by (simp_all add: isNptSec_def)
    then show ?thesis unfolding Cons by (simp add: list_all_iff)
  qed
  have "set s = set (takeWhile isDigit s) \<union> set (dropWhile isDigit s)"
    by (metis set_append takeWhile_dropWhile_id)
  with t d show ?thesis by blast
qed

lemma colon_not_NptSec: "\<not> isNptSec (a @ CHR '':'' # b)"
  using isNptSec_chars [of "a @ CHR '':'' # b"] not_digit(2) by auto

lemma isNptSec_nptSeconds:
  assumes "isDigits ds" "list_all isDigit fs"
  shows "isNptSec (nptSeconds ds fs)"
proof (cases "fs = []")
  case True
  then show ?thesis
    using assms by (simp add: isNptSec_def nptSeconds_def isDigits_def takeWhile_all dropWhile_all)
next
  case False
  then show ?thesis
    using assms
    by (simp add: isNptSec_def nptSeconds_def isDigits_def takeWhile_digits dropWhile_digits
        not_digit)
qed

lemma trim_groups:
  assumes "a \<noteq> []" "\<not> isWhiteSpace (hd a)" "b \<noteq> []" "\<not> isWhiteSpace (last b)"
  shows "trim (a @ r @ b) = a @ r @ b"
  using assms by (intro trim_id) simp_all

lemma parseNptTime_two_groups:
  assumes "a \<noteq> []" "\<not> isWhiteSpace (hd a)" "b \<noteq> []" "\<not> isWhiteSpace (last b)"
    and "CHR '':'' \<notin> set a" "CHR '':'' \<notin> set b"
  shows "parseNptTime (a @ '':'' @ b) = minutesSeconds (parseFloat a) (parseFloat b)"
proof -
  have t: "trim (a @ '':'' @ b) = a @ '':'' @ b"
    using assms(1-4) by (rule trim_groups)
  have n: "\<not> isNptSec (a @ '':'' @ b)" using colon_not_NptSec [of a b] by simp
  have p: "js_split CHR '':'' (a @ '':'' @ b) = [a, b]"
    using assms(5,6) by (simp add: js_split_prepend js_split_no_sep)
  show ?thesis
    unfolding parseNptTime_def t Let_def p using n assms(1)
    by (simp add: minutesSeconds_def)
qed

lemma parseNptTime_three_groups:
  assumes "a \<noteq> []" "\<not> isWhiteSpace (hd a)" "c \<noteq> []" "\<not> isWhiteSpace (last c)"
    and "CHR '':'' \<notin> set a" "CHR '':'' \<notin> set b" "CHR '':'' \<notin> set c"
  shows "parseNptTime (a @ '':'' @ b @ '':'' @ c) =
           hoursMinutesSeconds (parseFloat a) (parseFloat b) (parseFloat c)"
proof -
  have t: "trim (a @ '':'' @ b @ '':'' @ c) = a @ '':'' @ b @ '':'' @ c"
    using trim_groups [OF assms(1-4), of "'':'' @ b @ '':''"] by simp
  have n: "\<not> isNptSec (a @ '':'' @ b @ '':'' @ c)"
    using colon_not_NptSec [of a "b @ '':'' @ c"] by simp
  have p: "js_split CHR '':'' (a @ '':'' @ b @ '':'' @ c) = [a, b, c]"
    using assms(5-7) by (simp add: js_split_prepend js_split_no_sep)
  show ?thesis
    unfolding parseNptTime_def t Let_def p using n assms(1)
    by (simp add: hoursMinutesSeconds_def)
qed

lemma secondsValue_nonneg: "0 \<le> secondsValue ds fs"
  by (simp add: secondsValue_def)

lemma secondsNumber_nat: "secondsNumber ds [] = round64 (of_nat (digitsVal ds))"
  by (simp add: secondsNumber_def secondsValue_def digitsVal_def)

lemma nptSeconds_Nil: "nptSeconds ds [] = ds"
  by (simp add: nptSeconds_def)

text \<open>A rounded non-negative number: not NaN, not below zero.\<close>

lemma secondsNumber_cases:
  "secondsNumber ds fs = PosInf \<or> (\<exists>r. secondsNumber ds fs = Finite r \<and> 0 \<le> r)"
  unfolding secondsNumber_def by (rule round64_nonneg [OF secondsValue_nonneg])

lemma round64_nat_cases:
  "round64 (of_nat N) = PosInf \<or> (\<exists>r. round64 (of_nat N) = Finite r \<and> 0 \<le> r)"
  by (rule round64_nonneg) simp

lemma round64_nat_ge60:
  assumes "\<not> N < 60"
  shows "js_ge (round64 (of_nat N)) (Finite 60)"
proof (cases "N < 2 ^ 53")
  case True
  then show ?thesis using assms by (simp add: round64_exact js_ge_def)
next
  case False
  then have "(of_nat (2 ^ 53) :: rat) \<le> of_nat N" by (simp only: of_nat_le_iff)
  then have "(2::rat) ^ 53 \<le> of_nat N" by simp
  from round64_lower [OF this] show ?thesis by (auto simp: js_ge_def)
qed

lemma round64_nat_pos:
  assumes "N \<noteq> 0"
  shows "js_lt (js_neg (round64 (of_nat N))) (Finite 0)"
proof -
  have "(2::rat) ^ 0 \<le> of_nat N" using assms by simp
  from round64_lower [OF this] show ?thesis by auto
qed

lemma secondsNumber_pos:
  assumes "secondsNumber ds fs \<noteq> Finite 0"
  shows "js_lt (js_neg (secondsNumber ds fs)) (Finite 0)"
  using assms secondsNumber_cases [of ds fs] by auto

lemma minutesSeconds_group:
  "minutesSeconds (round64 (of_nat M)) (secondsNumber ds fs) =
     (if M < 60 \<and> js_lt (secondsNumber ds fs) (Finite 60)
      then Some (js_add (Finite (of_nat (M * 60))) (secondsNumber ds fs)) else None)"
proof (cases "M < 60")
  case True
  then have m: "round64 (of_nat M) = Finite (of_nat M)" by (simp add: round64_exact)
  have "round64 (of_nat (M * 60)) = Finite (of_nat (M * 60))"
    using True by (intro round64_exact) simp
  then have p: "js_mul (Finite (of_nat M)) (Finite 60) = Finite (of_nat (M * 60))" by simp
  show ?thesis
    using True secondsNumber_cases [of ds fs]
    unfolding minutesSeconds_def m p by (auto simp: js_ge_def)
next
  case False
  then show ?thesis using round64_nat_ge60 [OF False] by (simp add: minutesSeconds_def)
qed

lemma hoursMinutesSeconds_group:
  "hoursMinutesSeconds (round64 (of_nat H)) (round64 (of_nat M)) (secondsNumber ds fs) =
     (if M < 60 \<and> js_lt (secondsNumber ds fs) (Finite 60)
      then Some (js_add (js_add (js_mul (round64 (of_nat H)) (Finite 3600))
                                (Finite (of_nat (M * 60))))
                        (secondsNumber ds fs))
      else None)"
proof (cases "M < 60")
  case True
  then have m: "round64 (of_nat M) = Finite (of_nat M)" by (simp add: round64_exact)
  have "round64 (of_nat (M * 60)) = Finite (of_nat (M * 60))"
    using True by (intro round64_exact) simp
  then have p: "js_mul (Finite (of_nat M)) (Finite 60) = Finite (of_nat (M * 60))" by simp
  show ?thesis
    using True secondsNumber_cases [of ds fs] round64_nat_cases [of H]
    unfolding hoursMinutesSeconds_def m p by (auto simp: js_ge_def)
next
  case False
  then show ?thesis using round64_nat_ge60 [OF False] by (simp add: hoursMinutesSeconds_def)
qed

lemma digits_group:
  assumes "isDigits m"
  shows "m \<noteq> []" "\<not> isWhiteSpace (hd m)" "CHR '':'' \<notin> set m"
    "parseFloat m = round64 (of_nat (digitsVal m))"
proof -
  show ne: "m \<noteq> []" using assms by (simp add: isDigits_def)
  have d: "list_all isDigit m" using assms by (simp add: isDigits_def)
  have "isDigit (hd m)" using ne d by (cases m) auto
  then show "\<not> isWhiteSpace (hd m)" by (rule isDigit_chars(1))
  show "CHR '':'' \<notin> set m" using d by (rule digits_no_colon)
  show "parseFloat m = round64 (of_nat (digitsVal m))"
    using parseFloat_digits [OF assms, of "[]"] by (simp add: nptSeconds_Nil secondsNumber_nat)
qed

lemma seconds_group:
  assumes "isDigits ds" "list_all isDigit fs"
  shows "nptSeconds ds fs \<noteq> []" "\<not> isWhiteSpace (hd (nptSeconds ds fs))"
    "\<not> isWhiteSpace (last (nptSeconds ds fs))" "CHR '':'' \<notin> set (nptSeconds ds fs)"
proof -
  show "nptSeconds ds fs \<noteq> []" using nptSeconds_last [OF assms] by simp
  obtain c r where "nptSeconds ds fs = c # r" "isDigit c"
    using nptSeconds_head [OF assms(1), of fs] by blast
  then show "\<not> isWhiteSpace (hd (nptSeconds ds fs))" by (simp add: isDigit_chars(1))
  show "\<not> isWhiteSpace (last (nptSeconds ds fs))"
    using nptSeconds_last [OF assms] by (simp add: isDigit_chars(1))
  show "CHR '':'' \<notin> set (nptSeconds ds fs)" using assms by (rule nptSeconds_no_colon)
qed

lemma negative_group:
  assumes "isDigits ds" "list_all isDigit fs"
  shows "CHR ''-'' # nptSeconds ds fs \<noteq> []" "\<not> isWhiteSpace (hd (CHR ''-'' # nptSeconds ds fs))"
    "\<not> isWhiteSpace (last (CHR ''-'' # nptSeconds ds fs))"
    "CHR '':'' \<notin> set (CHR ''-'' # nptSeconds ds fs)"
  using seconds_group [OF assms] by (simp_all add: not_space)

lemma minutesSeconds_zero:
  "minutesSeconds (js_neg (Finite 0)) S = minutesSeconds (Finite 0) S"
  "minutesSeconds M (js_neg (Finite 0)) = minutesSeconds M (Finite 0)"
  by simp_all

lemma minutesSeconds_negative:
  "js_lt M (Finite 0) \<Longrightarrow> minutesSeconds M S = None"
  "js_lt S (Finite 0) \<Longrightarrow> minutesSeconds M S = None"
  by (simp_all add: minutesSeconds_def)

lemma hoursMinutesSeconds_negative:
  "js_lt H (Finite 0) \<Longrightarrow> hoursMinutesSeconds H M S = None"
  "js_lt M (Finite 0) \<Longrightarrow> hoursMinutesSeconds H M S = None"
  "js_lt S (Finite 0) \<Longrightarrow> hoursMinutesSeconds H M S = None"
  by (simp_all add: hoursMinutesSeconds_def)

lemma round64_zero: "round64 0 = Finite 0"
  by (simp add: round64_def)

text \<open>
  Claim C4. On the time strings of the grammar, with every number a binary64 value:
  digits with an optional fraction parse to the number of seconds they spell;
  \<^verbatim>\<open>MM:SS\<close> is valid exactly when minutes and seconds, as parsed, are at least 0 and
  below 60, and gives \<open>minutes * 60 + seconds\<close>; \<^verbatim>\<open>HH:MM:SS\<close> is valid exactly
  when in addition the hours are at least 0, with no upper bound on them, and gives
  \<open>hours * 3600 + minutes * 60 + seconds\<close>. A group with a minus sign is refused unless
  its number is zero. For groups without fraction the results are the exact integers
  (for the hours, as long as the total stays below \<open>2\<^sup>5\<^sup>3\<close>). So
  \<^verbatim>\<open>#t=0:02:00,0:03:30\<close> gives start 120 and end 210.
\<close>

theorem npt_time_values:
  assumes "isDigits h" and "isDigits m" and "isDigits ds" and "list_all isDigit fs"
  shows "parseNptTime (nptSeconds ds fs) = Some (secondsNumber ds fs) \<and>
    parseNptTime (m @ '':'' @ nptSeconds ds fs) =
      (if digitsVal m < 60 \<and> js_lt (secondsNumber ds fs) (Finite 60)
       then Some (js_add (Finite (of_nat (digitsVal m * 60))) (secondsNumber ds fs))
       else None) \<and>
    parseNptTime (h @ '':'' @ m @ '':'' @ nptSeconds ds fs) =
      (if digitsVal m < 60 \<and> js_lt (secondsNumber ds fs) (Finite 60)
       then Some (js_add (js_add (js_mul (round64 (of_nat (digitsVal h))) (Finite 3600))
                                 (Finite (of_nat (digitsVal m * 60))))
                         (secondsNumber ds fs))
       else None) \<and>
    (digitsVal ds < 2 ^ 53 \<longrightarrow> parseNptTime ds = Some (Finite (of_nat (digitsVal ds)))) \<and>
    parseNptTime (m @ '':'' @ ds) =
      (if digitsVal m < 60 \<and> digitsVal ds < 60
       then Some (Finite (of_nat (digitsVal m * 60 + digitsVal ds))) else None) \<and>
    (digitsVal h * 3600 + 3600 \<le> 2 ^ 53 \<longrightarrow>
       parseNptTime (h @ '':'' @ m @ '':'' @ ds) =
         (if digitsVal m < 60 \<and> digitsVal ds < 60
          then Some (Finite (of_nat (digitsVal h * 3600 + digitsVal m * 60 + digitsVal ds)))
          else None)) \<and>
    parseNptTime (''-'' @ m @ '':'' @ nptSeconds ds fs) =
      (if digitsVal m = 0 then parseNptTime (m @ '':'' @ nptSeconds ds fs) else None) \<and>
    parseNptTime (m @ '':-'' @ nptSeconds ds fs) =
      (if secondsNumber ds fs = Finite 0 then parseNptTime (m @ '':'' @ nptSeconds ds fs)
       else None) \<and>
    parseNptTime (''-'' @ h @ '':'' @ m @ '':'' @ nptSeconds ds fs) =
      (if digitsVal h = 0 then parseNptTime (h @ '':'' @ m @ '':'' @ nptSeconds ds fs)
       else None) \<and>
    parseNptTime (h @ '':-'' @ m @ '':'' @ nptSeconds ds fs) =
      (if digitsVal m = 0 then parseNptTime (h @ '':'' @ m @ '':'' @ nptSeconds ds fs)
       else None) \<and>
    parseNptTime (h @ '':'' @ m @ '':-'' @ nptSeconds ds fs) =
      (if secondsNumber ds fs = Finite 0
       then parseNptTime (h @ '':'' @ m @ '':'' @ nptSeconds ds fs) else None)"
proof -
  note S = seconds_group [OF assms(3,4)]
  note M = digits_group [OF assms(2)]
  note H = digits_group [OF assms(1)]
  note NS = negative_group [OF assms(3,4)]
  have nil: "list_all isDigit []" by simp
  note NM = negative_group [OF assms(2) nil, unfolded nptSeconds_Nil]
  note NH = negative_group [OF assms(1) nil, unfolded nptSeconds_Nil]
  note I = seconds_group [OF assms(3) nil, unfolded nptSeconds_Nil]
  have sv: "parseFloat (nptSeconds ds fs) = secondsNumber ds fs"
    using assms(3,4) by (rule parseFloat_digits)
  have iv: "parseFloat ds = round64 (of_nat (digitsVal ds))"
    using digits_group(4) [OF assms(3)] .
  have nsv: "parseFloat (CHR ''-'' # nptSeconds ds fs) = js_neg (secondsNumber ds fs)"
    using assms(3,4) by (rule parseFloat_negative)
  have nmv: "parseFloat (CHR ''-'' # m) = js_neg (round64 (of_nat (digitsVal m)))"
    using parseFloat_negative [OF assms(2) nil] by (simp add: nptSeconds_Nil secondsNumber_nat)
  have nhv: "parseFloat (CHR ''-'' # h) = js_neg (round64 (of_nat (digitsVal h)))"
    using parseFloat_negative [OF assms(1) nil] by (simp add: nptSeconds_Nil secondsNumber_nat)
  have two: "parseNptTime (m @ '':'' @ nptSeconds ds fs) =
      minutesSeconds (round64 (of_nat (digitsVal m))) (secondsNumber ds fs)"
    unfolding parseNptTime_two_groups [OF M(1,2) S(1,3) M(3) S(4)] M(4) sv ..
  have three: "parseNptTime (h @ '':'' @ m @ '':'' @ nptSeconds ds fs) =
      hoursMinutesSeconds (round64 (of_nat (digitsVal h))) (round64 (of_nat (digitsVal m)))
        (secondsNumber ds fs)"
    unfolding parseNptTime_three_groups [OF H(1,2) S(1,3) H(3) M(3) S(4)] H(4) M(4) sv ..
  have 1: "parseNptTime (nptSeconds ds fs) = Some (secondsNumber ds fs)"
    using trim_id [OF S(1-3)] S(1) isNptSec_nptSeconds [OF assms(3,4)] sv
    by (simp add: parseNptTime_def)
  have 2: "parseNptTime (m @ '':'' @ nptSeconds ds fs) =
      (if digitsVal m < 60 \<and> js_lt (secondsNumber ds fs) (Finite 60)
       then Some (js_add (Finite (of_nat (digitsVal m * 60))) (secondsNumber ds fs))
       else None)"
    unfolding two by (rule minutesSeconds_group)
  have 3: "parseNptTime (h @ '':'' @ m @ '':'' @ nptSeconds ds fs) =
      (if digitsVal m < 60 \<and> js_lt (secondsNumber ds fs) (Finite 60)
       then Some (js_add (js_add (js_mul (round64 (of_nat (digitsVal h))) (Finite 3600))
                                 (Finite (of_nat (digitsVal m * 60))))
                         (secondsNumber ds fs))
       else None)"
    unfolding three by (rule hoursMinutesSeconds_group)
  have 4: "parseNptTime ds = Some (Finite (of_nat (digitsVal ds)))" if "digitsVal ds < 2 ^ 53"
  proof -
    have "parseNptTime (nptSeconds ds []) = Some (secondsNumber ds [])"
      using trim_id [OF I(1-3)] I(1) isNptSec_nptSeconds [OF assms(3) nil] iv
      by (simp add: parseNptTime_def nptSeconds_Nil secondsNumber_nat)
    then show ?thesis using that by (simp add: nptSeconds_Nil secondsNumber_nat round64_exact)
  qed
  have lt60: "js_lt (round64 (of_nat N)) (Finite 60) = (N < 60)" for N
  proof (cases "N < 60")
    case True
    then show ?thesis by (simp add: round64_exact)
  next
    case False
    then show ?thesis using round64_nat_ge60 [OF False] by (simp add: js_ge_def)
  qed
  have 5: "parseNptTime (m @ '':'' @ ds) =
      (if digitsVal m < 60 \<and> digitsVal ds < 60
       then Some (Finite (of_nat (digitsVal m * 60 + digitsVal ds))) else None)"
  proof -
    have "parseNptTime (m @ '':'' @ nptSeconds ds []) =
        minutesSeconds (round64 (of_nat (digitsVal m))) (secondsNumber ds [])"
      unfolding nptSeconds_Nil secondsNumber_nat
        parseNptTime_two_groups [OF M(1,2) I(1,3) M(3) I(4)] M(4) iv ..
    then have e: "parseNptTime (m @ '':'' @ ds) =
        (if digitsVal m < 60 \<and> digitsVal ds < 60
         then Some (js_add (Finite (of_nat (digitsVal m * 60))) (round64 (of_nat (digitsVal ds))))
         else None)"
      unfolding minutesSeconds_group by (simp add: nptSeconds_Nil secondsNumber_nat lt60)
    show ?thesis
    proof (cases "digitsVal m < 60 \<and> digitsVal ds < 60")
      case True
      then have "round64 (of_nat (digitsVal m * 60 + digitsVal ds)) =
          Finite (of_nat (digitsVal m * 60 + digitsVal ds))"
        by (intro round64_exact) simp
      then show ?thesis using True e by (simp add: round64_exact)
    next
      case False
      then show ?thesis using e by auto
    qed
  qed
  have 6: "parseNptTime (h @ '':'' @ m @ '':'' @ ds) =
      (if digitsVal m < 60 \<and> digitsVal ds < 60
       then Some (Finite (of_nat (digitsVal h * 3600 + digitsVal m * 60 + digitsVal ds)))
       else None)"
    if b: "digitsVal h * 3600 + 3600 \<le> 2 ^ 53"
  proof -
    have "parseNptTime (h @ '':'' @ m @ '':'' @ nptSeconds ds []) =
        hoursMinutesSeconds (round64 (of_nat (digitsVal h))) (round64 (of_nat (digitsVal m)))
          (secondsNumber ds [])"
      unfolding nptSeconds_Nil secondsNumber_nat
        parseNptTime_three_groups [OF H(1,2) I(1,3) H(3) M(3) I(4)] H(4) M(4) iv ..
    then have e: "parseNptTime (h @ '':'' @ m @ '':'' @ ds) =
        (if digitsVal m < 60 \<and> digitsVal ds < 60
         then Some (js_add (js_add (js_mul (round64 (of_nat (digitsVal h))) (Finite 3600))
                                   (Finite (of_nat (digitsVal m * 60))))
                           (round64 (of_nat (digitsVal ds))))
         else None)"
      unfolding hoursMinutesSeconds_group by (simp add: nptSeconds_Nil secondsNumber_nat lt60)
    show ?thesis
    proof (cases "digitsVal m < 60 \<and> digitsVal ds < 60")
      case True
      have x: "round64 (of_nat N) = Finite (of_nat N)"
        if "N \<le> digitsVal h * 3600 + digitsVal m * 60 + digitsVal ds" for N
        using that True b by (intro round64_exact) simp
      have h1: "js_mul (round64 (of_nat (digitsVal h))) (Finite 3600) =
          Finite (of_nat (digitsVal h * 3600))"
        using x [of "digitsVal h"] x [of "digitsVal h * 3600"] by simp
      have h2: "js_add (Finite (of_nat (digitsVal h * 3600))) (Finite (of_nat (digitsVal m * 60))) =
          Finite (of_nat (digitsVal h * 3600 + digitsVal m * 60))"
        using x [of "digitsVal h * 3600 + digitsVal m * 60"] by simp
      have h3: "js_add (Finite (of_nat (digitsVal h * 3600 + digitsVal m * 60)))
            (round64 (of_nat (digitsVal ds))) =
          Finite (of_nat (digitsVal h * 3600 + digitsVal m * 60 + digitsVal ds))"
        using x [of "digitsVal ds"] x [of "digitsVal h * 3600 + digitsVal m * 60 + digitsVal ds"]
        by simp
      show ?thesis using True e by (simp only: h1 h2 h3 if_True)
    next
      case False
      then show ?thesis using e by auto
    qed
  qed
  have 7: "parseNptTime (''-'' @ m @ '':'' @ nptSeconds ds fs) =
      (if digitsVal m = 0 then parseNptTime (m @ '':'' @ nptSeconds ds fs) else None)"
  proof -
    have e: "parseNptTime ((CHR ''-'' # m) @ '':'' @ nptSeconds ds fs) =
        minutesSeconds (js_neg (round64 (of_nat (digitsVal m)))) (secondsNumber ds fs)"
      unfolding parseNptTime_two_groups [OF NM(1,2) S(1,3) NM(4) S(4)] nmv sv ..
    show ?thesis
    proof (cases "digitsVal m = 0")
      case True
      then show ?thesis using e two by (simp add: round64_zero)
    next
      case False
      then show ?thesis
        using e minutesSeconds_negative(1) [OF round64_nat_pos [OF False]] by simp
    qed
  qed
  have 8: "parseNptTime (m @ '':-'' @ nptSeconds ds fs) =
      (if secondsNumber ds fs = Finite 0 then parseNptTime (m @ '':'' @ nptSeconds ds fs)
       else None)"
  proof -
    have e: "parseNptTime (m @ '':'' @ (CHR ''-'' # nptSeconds ds fs)) =
        minutesSeconds (round64 (of_nat (digitsVal m))) (js_neg (secondsNumber ds fs))"
      unfolding parseNptTime_two_groups [OF M(1,2) NS(1,3) M(3) NS(4)] M(4) nsv ..
    show ?thesis
    proof (cases "secondsNumber ds fs = Finite 0")
      case True
      then show ?thesis using e two by simp
    next
      case False
      then show ?thesis
        using e minutesSeconds_negative(2) [OF secondsNumber_pos [OF False]] by simp
    qed
  qed
  have 9: "parseNptTime (''-'' @ h @ '':'' @ m @ '':'' @ nptSeconds ds fs) =
      (if digitsVal h = 0 then parseNptTime (h @ '':'' @ m @ '':'' @ nptSeconds ds fs)
       else None)"
  proof -
    have e: "parseNptTime ((CHR ''-'' # h) @ '':'' @ m @ '':'' @ nptSeconds ds fs) =
        hoursMinutesSeconds (js_neg (round64 (of_nat (digitsVal h))))
          (round64 (of_nat (digitsVal m))) (secondsNumber ds fs)"
      unfolding parseNptTime_three_groups [OF NH(1,2) S(1,3) NH(4) M(3) S(4)] nhv M(4) sv ..
    show ?thesis
    proof (cases "digitsVal h = 0")
      case True
      then show ?thesis using e three by (simp add: round64_zero)
    next
      case False
      then show ?thesis
        using e hoursMinutesSeconds_negative(1) [OF round64_nat_pos [OF False]] by simp
    qed
  qed
  have 10: "parseNptTime (h @ '':-'' @ m @ '':'' @ nptSeconds ds fs) =
      (if digitsVal m = 0 then parseNptTime (h @ '':'' @ m @ '':'' @ nptSeconds ds fs)
       else None)"
  proof -
    have e: "parseNptTime (h @ '':'' @ (CHR ''-'' # m) @ '':'' @ nptSeconds ds fs) =
        hoursMinutesSeconds (round64 (of_nat (digitsVal h)))
          (js_neg (round64 (of_nat (digitsVal m)))) (secondsNumber ds fs)"
      unfolding parseNptTime_three_groups [OF H(1,2) S(1,3) H(3) NM(4) S(4)] H(4) nmv sv ..
    show ?thesis
    proof (cases "digitsVal m = 0")
      case True
      then show ?thesis using e three by (simp add: round64_zero)
    next
      case False
      then show ?thesis
        using e hoursMinutesSeconds_negative(2) [OF round64_nat_pos [OF False]] by simp
    qed
  qed
  have 11: "parseNptTime (h @ '':'' @ m @ '':-'' @ nptSeconds ds fs) =
      (if secondsNumber ds fs = Finite 0
       then parseNptTime (h @ '':'' @ m @ '':'' @ nptSeconds ds fs) else None)"
  proof -
    have e: "parseNptTime (h @ '':'' @ m @ '':'' @ (CHR ''-'' # nptSeconds ds fs)) =
        hoursMinutesSeconds (round64 (of_nat (digitsVal h))) (round64 (of_nat (digitsVal m)))
          (js_neg (secondsNumber ds fs))"
      unfolding parseNptTime_three_groups [OF H(1,2) NS(1,3) H(3) M(3) NS(4)] H(4) M(4) nsv ..
    show ?thesis
    proof (cases "secondsNumber ds fs = Finite 0")
      case True
      then show ?thesis using e three by simp
    next
      case False
      then show ?thesis
        using e hoursMinutesSeconds_negative(3) [OF secondsNumber_pos [OF False]] by simp
    qed
  qed
  from 1 2 3 4 5 6 7 8 9 10 11 show ?thesis by (intro conjI impI)
qed

theorem npt_time_values_witness:
  "isDigits ''0'' \<and> isDigits ''02'' \<and> isDigits ''45'' \<and> list_all isDigit ''5'' \<and>
   parseNptTime ''45.5'' = Some (Finite (91 / 2)) \<and>
   parseNptTime ''02:45.5'' = Some (Finite (331 / 2)) \<and>
   parseNptTime ''0:02:45.5'' = Some (Finite (331 / 2)) \<and>
   parseNptTime ''02:45'' = Some (Finite 165) \<and>
   parseNptTime ''0:02:45'' = Some (Finite 165) \<and>
   parseNptTime ''-02:45.5'' = None \<and>
   parseNptTime ''02:-45.5'' = None \<and>
   parseNptTime ''0:-02:45.5'' = None \<and>
   parseNptTime ''-0:02:45.5'' = Some (Finite (331 / 2)) \<and>
   parseNptTime ''1:9.04'' = Some (Finite (2429129049012961 / 35184372088832)) \<and>
   parseNptTime ''00:59.999999999999997'' = None \<and>
   parseMediaFragment ''#t=0:02:00,0:03:30'' =
     Inr \<lparr>temporalFragment = Some \<lparr>start = Some (Finite 120), end' = Some (Finite 210)\<rparr>\<rparr>"
proof -
  have h: "isDigits ''0''" "isDigits ''02''" "isDigits ''45''" "list_all isDigit ''5''"
    by (simp_all add: isDigits_def isDigit_def)
  have v: "digitsVal ''0'' = 0" "digitsVal ''02'' = 2" "digitsVal ''45'' = 45"
    "nptSeconds ''45'' ''5'' = ''45.5''"
    by (simp_all add: digitsVal_def digitVal_def nptSeconds_def)
  have n: "secondsNumber ''45'' ''5'' = Finite (91 / 2)" by code_simp
  have r: "round64 (331 / 2) = Finite (331 / 2)" "round64 120 = Finite 120" by code_simp+
  note t = npt_time_values [OF h, unfolded v n]
  have r1: "parseNptTime ''45.5'' = Some (Finite (91 / 2))" using t by simp
  have r2: "parseNptTime ''02:45.5'' = Some (Finite (331 / 2))" using t r by simp
  have r3: "parseNptTime ''0:02:45.5'' = Some (Finite (331 / 2))"
    using t r by (simp add: round64_zero)
  have r4: "parseNptTime ''02:45'' = Some (Finite 165)" using t by simp
  have r5: "parseNptTime ''0:02:45'' = Some (Finite 165)" using t by simp
  have r6: "parseNptTime ''-02:45.5'' = None" using t by simp
  have r7: "parseNptTime ''02:-45.5'' = None" using t by simp
  have r8: "parseNptTime ''0:-02:45.5'' = None" using t by simp
  have r9: "parseNptTime ''-0:02:45.5'' = Some (Finite (331 / 2))"
    using t r by (simp add: round64_zero)
  have g: "isDigits ''1''" "isDigits ''9''" "list_all isDigit ''04''" "isDigits ''00''"
    "isDigits ''59''" "list_all isDigit ''999999999999997''"
    by (simp_all add: isDigits_def isDigit_def)
  have w: "digitsVal ''1'' = 1" "digitsVal ''00'' = 0" "nptSeconds ''9'' ''04'' = ''9.04''"
    "nptSeconds ''59'' ''999999999999997'' = ''59.999999999999997''"
    by (simp_all add: digitsVal_def digitVal_def nptSeconds_def)
  have n1: "secondsNumber ''9'' ''04'' = Finite (1272266894732165 / 140737488355328)"
    by code_simp
  have a1: "js_add (Finite 60) (Finite (1272266894732165 / 140737488355328)) =
      Finite (2429129049012961 / 35184372088832)"
    by code_simp
  have "round64 (59999999999999997 / 1000000000000000) = Finite 60" by code_simp
  then have n2: "secondsNumber ''59'' ''999999999999997'' = Finite 60"
    by (simp add: secondsNumber_def secondsValue_def digitsVal_def digitVal_def)
  have r10: "parseNptTime ''1:9.04'' = Some (Finite (2429129049012961 / 35184372088832))"
    using npt_time_values [OF g(1) g(1) g(2) g(3), unfolded w n1, THEN conjunct2, THEN conjunct1]
      a1
    by (simp del: js_add.simps)
  have r11: "parseNptTime ''00:59.999999999999997'' = None"
    using npt_time_values [OF g(1) g(4) g(5) g(6), unfolded w n2, THEN conjunct2, THEN conjunct1]
    by simp
  have r12: "parseMediaFragment ''#t=0:02:00,0:03:30'' =
      Inr \<lparr>temporalFragment = Some \<lparr>start = Some (Finite 120), end' = Some (Finite 210)\<rparr>\<rparr>"
    by code_simp
  show ?thesis by (intro conjI h r1 r2 r3 r4 r5 r6 r7 r8 r9 r10 r11 r12)
qed

section \<open>The boundary is enforced once\<close>












end
